theory Spec2Isabelle
  imports
    Main
    "HOL-Library.AList"
    "HOL-Library.Char_ord"
    "HOL-Library.List_Lexorder"
    "HOL-Library.Multiset"
begin

section \<open>The data model of the metric hub\<close>

text \<open>
  The protobuf types of \<^verbatim>\<open>client_model\<close> as the hub uses them. Every field of these
  structs is a pointer or a slice: a nil pointer is \<open>None\<close>. The getters
  (\<^verbatim>\<open>GetName\<close>, \<^verbatim>\<open>GetValue\<close>) return the empty string on nil; a direct dereference
  (\<^verbatim>\<open>*metric.TimestampMs\<close>, \<^verbatim>\<open>*label.Name\<close>, \<^verbatim>\<open>*pullFamily.Name\<close>) panics on nil.
  Strings are byte lists, compared bytewise as Go compares them.
\<close>

datatype failure =
  NilDereference | IndexOutOfRange | NilMapAssignment | NegativeChanSize | BlockedForever

datatype MetricType = COUNTER | GAUGE | SUMMARY | UNTYPED | HISTOGRAM

record LabelPair =
  lpName :: "string option"
  lpValue :: "string option"

text \<open>
  \<open>Payload\<close> stands for the pointer fields \<^verbatim>\<open>Gauge\<close>, \<^verbatim>\<open>Counter\<close>, \<^verbatim>\<open>Summary\<close>,
  \<^verbatim>\<open>Untyped\<close> and \<^verbatim>\<open>Histogram\<close> of a \<^verbatim>\<open>dto.Metric\<close>, which carry the sample's value
  and which the hub never reads: \<open>None\<close> when all of them are nil. The timestamp is an
  \<^verbatim>\<open>*int64\<close>; the hub only compares timestamps, so they are integers here.
\<close>

record 'v Metric =
  Label :: "LabelPair list"
  Payload :: "'v option"
  TimestampMs :: "int option"

record 'v MetricFamily =
  Name :: "string option"
  Help :: "string option"
  Type :: "MetricType option"
  Metric :: "'v Metric list"

definition LabelPair_GetName :: "LabelPair \<Rightarrow> string" where
  "LabelPair_GetName l = (case lpName l of None \<Rightarrow> [] | Some s \<Rightarrow> s)"

definition LabelPair_GetValue :: "LabelPair \<Rightarrow> string" where
  "LabelPair_GetValue l = (case lpValue l of None \<Rightarrow> [] | Some s \<Rightarrow> s)"

definition GetName :: "'v MetricFamily \<Rightarrow> string" where
  "GetName fam = (case Name fam of None \<Rightarrow> [] | Some s \<Rightarrow> s)"

text \<open>\<^verbatim>\<open>&dto.Metric{}\<close>, the placeholder that \<^verbatim>\<open>sortedInsert\<close> appends.\<close>

definition emptyMetric :: "'v Metric" where
  "emptyMetric = \<lparr>Label = [], Payload = None, TimestampMs = None\<rparr>"

subsection \<open>Go slices\<close>

text \<open>
  A slice value is a window on an underlying array: \<open>elems\<close> are the elements the
  slice shows, \<open>cap\<close> is how many the array can hold from the slice's start. Two slice
  values can share one array, and \<^verbatim>\<open>append\<close> writes into the shared array when there is
  room (\<open>length (elems s) < cap s\<close>) and allocates a new one otherwise. How much larger
  the new array is, is the Go runtime's choice and not part of the repository: it is the
  parameter \<open>grow\<close> (from the old capacity), never less than what the append needs.
\<close>

record 'a slice =
  elems :: "'a list"
  cap :: nat

type_synonym growth = "nat \<Rightarrow> nat"

definition go_append :: "growth \<Rightarrow> 'a slice \<Rightarrow> 'a \<Rightarrow> 'a slice" where
  "go_append grow s x =
     (if length (elems s) < cap s
      then \<lparr>elems = elems s @ [x], cap = cap s\<rparr>
      else \<lparr>elems = elems s @ [x], cap = max (Suc (length (elems s))) (grow (cap s))\<rparr>)"

text \<open>
  \<^verbatim>\<open>copy(xs[d:], xs[s:])\<close> within one array: it moves
  \<open>min (length xs - d) (length xs - s)\<close> elements, as \<^verbatim>\<open>memmove\<close> does.
\<close>

definition go_copy :: "'a list \<Rightarrow> nat \<Rightarrow> nat \<Rightarrow> 'a list" where
  "go_copy xs d s =
     (let n = min (length xs - d) (length xs - s)
      in take d xs @ take n (drop s xs) @ drop (d + n) xs)"

text \<open>A slice literal with one element: \<^verbatim>\<open>[]*dto.Metric{metric}\<close>.\<close>

definition slice1 :: "'a \<Rightarrow> 'a slice" where
  "slice1 x = \<lparr>elems = [x], cap = 1\<rparr>"

subsection \<open>\<^verbatim>\<open>sort.Search\<close> and \<^verbatim>\<open>sort.Slice\<close>\<close>

text \<open>
  \<^verbatim>\<open>sort.Search(n, f)\<close> is the library's binary search: \<^verbatim>\<open>i, j := 0, n\<close>, and while
  \<^verbatim>\<open>i < j\<close> it probes \<^verbatim>\<open>h = (i+j)/2\<close> and keeps \<^verbatim>\<open>[h+1, j)\<close> when \<^verbatim>\<open>f(h)\<close> is false and
  \<^verbatim>\<open>[i, h)\<close> otherwise. The predicate may panic.
\<close>

function Search_loop :: "(nat \<Rightarrow> failure + bool) \<Rightarrow> nat \<Rightarrow> nat \<Rightarrow> failure + nat" where
  "Search_loop f i j =
     (if i < j
      then (case f ((i + j) div 2) of
              Inl p \<Rightarrow> Inl p
            | Inr b \<Rightarrow> if \<not> b then Search_loop f ((i + j) div 2 + 1) j
                       else Search_loop f i ((i + j) div 2))
      else Inr i)"
  by pat_completeness auto
termination
  by (relation "measure (\<lambda>(f, i, j). j - i)") auto

definition Search :: "nat \<Rightarrow> (nat \<Rightarrow> failure + bool) \<Rightarrow> failure + nat" where
  "Search n f = Search_loop f 0 n"

text \<open>
  \<^verbatim>\<open>sort.Slice(labels, less)\<close> with \<^verbatim>\<open>less\<close> comparing the label names. For slices
  shorter than twelve elements Go sorts by insertion, which is what \<open>sort_key\<close> is; for
  label names that are pairwise distinct every sorting algorithm returns the same list.
\<close>

definition sortSlice :: "LabelPair list \<Rightarrow> LabelPair list" where
  "sortSlice labels = sort_key LabelPair_GetName labels"

section \<open>The family and series store\<close>

text \<open>
  \<^verbatim>\<open>makeLabeledName\<close> sorts \<^verbatim>\<open>metric.GetLabel()\<close> in place, so the caller's metric has
  its labels reordered afterwards: the function returns the name and the metric as it
  is after the call.
\<close>

definition labelSegment :: "LabelPair \<Rightarrow> string" where
  "labelSegment labelPair =
     ''_'' @ LabelPair_GetName labelPair @ ''_'' @ LabelPair_GetValue labelPair"

definition makeLabeledName :: "'v Metric \<Rightarrow> string \<Rightarrow> string \<times> 'v Metric" where
  "makeLabeledName metric metricName =
     (let labels = sortSlice (Label metric)
      in (foldl (\<lambda>labeledName labelPair. labeledName @ labelSegment labelPair)
            metricName labels,
          metric\<lparr>Label := labels\<rparr>))"

text \<open>\<^verbatim>\<open>*data[i].TimestampMs > *el.TimestampMs\<close>, the predicate of the search.\<close>

definition timestampGreater :: "'v Metric list \<Rightarrow> 'v Metric \<Rightarrow> nat \<Rightarrow> failure + bool" where
  "timestampGreater data el i =
     (if i < length data
      then (case TimestampMs (data ! i) of
              None \<Rightarrow> Inl NilDereference
            | Some t \<Rightarrow> (case TimestampMs el of
                          None \<Rightarrow> Inl NilDereference
                        | Some u \<Rightarrow> Inr (t > u)))
      else Inl IndexOutOfRange)"

text \<open>
  \<^verbatim>\<open>sortedInsert\<close> appends a placeholder, shifts the tail one place up and stores the
  element at the index found. Its first result is the slice it returns. Its second
  result is what the caller's own slice value \<open>data\<close> shows afterwards: when the append
  had room, the shift and the store wrote into the array that \<open>data\<close> still windows with
  its old length; when the append allocated, \<open>data\<close>'s array is untouched.
\<close>

definition sortedInsert ::
  "growth \<Rightarrow> 'v Metric slice \<Rightarrow> 'v Metric \<Rightarrow> failure + ('v Metric slice \<times> 'v Metric slice)" where
  "sortedInsert grow data el =
     (case Search (length (elems data)) (timestampGreater (elems data) el) of
        Inl p \<Rightarrow> Inl p
      | Inr index \<Rightarrow>
          (let data1 = go_append grow data emptyMetric;
               data2 = data1\<lparr>elems := go_copy (elems data1) (index + 1) index\<rparr>;
               data3 = data2\<lparr>elems := (elems data2)[index := el]\<rparr>
           in Inr (data3,
                   if length (elems data) < cap data
                   then data\<lparr>elems := take (length (elems data)) (elems data3)\<rparr>
                   else data)))"

text \<open>\<^verbatim>\<open>*metric.TimestampMs >= *queue[len(queue)-1].TimestampMs\<close>.\<close>

definition notBeforeLast :: "'v Metric \<Rightarrow> 'v Metric slice \<Rightarrow> failure + bool" where
  "notBeforeLast metric queue =
     (case TimestampMs metric of
        None \<Rightarrow> Inl NilDereference
      | Some t \<Rightarrow>
          (if elems queue = [] then Inl IndexOutOfRange
           else (case TimestampMs (last (elems queue)) of
                   None \<Rightarrow> Inl NilDereference
                 | Some u \<Rightarrow> Inr (t \<ge> u))))"

text \<open>
  A Go map is an association list with distinct keys here; the order of the list is one
  of the orders in which Go may iterate over the map.
\<close>

type_synonym 'v queues = "(string \<times> 'v Metric slice) list"

record 'v familyAndMetrics =
  family :: "'v MetricFamily"
  metrics :: "'v queues"

text \<open>The loop of \<^verbatim>\<open>newFamilyAndMetrics\<close>, which stores what \<^verbatim>\<open>sortedInsert\<close> returns.\<close>

fun newQueues :: "growth \<Rightarrow> string \<Rightarrow> 'v queues \<Rightarrow> 'v Metric list \<Rightarrow> failure + 'v queues" where
  "newQueues grow familyName qs [] = Inr qs"
| "newQueues grow familyName qs (metric # rest) =
     (case makeLabeledName metric familyName of
        (name, metric') \<Rightarrow>
          (case map_of qs name of
             Some metricQueue \<Rightarrow>
               (case notBeforeLast metric' metricQueue of
                  Inl p \<Rightarrow> Inl p
                | Inr True \<Rightarrow>
                    newQueues grow familyName
                      (AList.update name (go_append grow metricQueue metric') qs) rest
                | Inr False \<Rightarrow>
                    (case sortedInsert grow metricQueue metric' of
                       Inl p \<Rightarrow> Inl p
                     | Inr (inserted, aliased) \<Rightarrow>
                         newQueues grow familyName (AList.update name inserted qs) rest))
           | None \<Rightarrow>
               newQueues grow familyName (AList.update name (slice1 metric') qs) rest))"

definition newFamilyAndMetrics :: "growth \<Rightarrow> 'v MetricFamily \<Rightarrow> failure + 'v familyAndMetrics" where
  "newFamilyAndMetrics grow fam =
     (case newQueues grow (GetName fam) [] (Metric fam) of
        Inl p \<Rightarrow> Inl p
      | Inr qs \<Rightarrow> Inr \<lparr>family = fam\<lparr>Metric := []\<rparr>, metrics = qs\<rparr>)"

text \<open>
  \<^verbatim>\<open>addMetrics\<close> mutates the family in place, so a panic leaves what was done so far:
  the result is the panic, if any, and the family afterwards. On the out-of-order path
  the source assigns what \<^verbatim>\<open>sortedInsert\<close> returns to the local variable \<^verbatim>\<open>queue\<close> only;
  the map keeps its own slice value, which shows \<open>aliased\<close>.
\<close>

fun addMetrics ::
  "growth \<Rightarrow> 'v familyAndMetrics \<Rightarrow> 'v Metric list \<Rightarrow> failure option \<times> 'v familyAndMetrics" where
  "addMetrics grow f [] = (None, f)"
| "addMetrics grow f (metric # rest) =
     (case makeLabeledName metric (GetName (family f)) of
        (metricName, metric') \<Rightarrow>
          (case map_of (metrics f) metricName of
             Some queue \<Rightarrow>
               (case notBeforeLast metric' queue of
                  Inl p \<Rightarrow> (Some p, f)
                | Inr True \<Rightarrow>
                    addMetrics grow
                      (f\<lparr>metrics := AList.update metricName (go_append grow queue metric') (metrics f)\<rparr>)
                      rest
                | Inr False \<Rightarrow>
                    (case sortedInsert grow queue metric' of
                       Inl p \<Rightarrow> (Some p, f)
                     | Inr (inserted, aliased) \<Rightarrow>
                         addMetrics grow
                           (f\<lparr>metrics := AList.update metricName aliased (metrics f)\<rparr>) rest))
           | None \<Rightarrow>
               addMetrics grow
                 (f\<lparr>metrics := AList.update metricName (slice1 metric') (metrics f)\<rparr>) rest))"

text \<open>
  \<^verbatim>\<open>popDatapoints\<close> copies the family struct and appends every non-empty queue to the
  copy's \<^verbatim>\<open>Metric\<close> slice; the queues themselves are only read.
\<close>

definition copyFamily :: "'v familyAndMetrics \<Rightarrow> 'v MetricFamily" where
  "copyFamily f = family f"

definition popDatapoints :: "'v familyAndMetrics \<Rightarrow> 'v MetricFamily" where
  "popDatapoints f =
     foldl (\<lambda>pullFamily (name, queue).
              if elems queue = [] then pullFamily
              else pullFamily\<lparr>Metric := Metric pullFamily @ elems queue\<rparr>)
       (copyFamily f) (metrics f)"

section \<open>The hub\<close>

type_synonym 'v store = "(string \<times> 'v familyAndMetrics) list"

record hubStats =
  lastScrapeTime :: int
  lastScrapeSize :: int
  lastScrapeNumFamilies :: int
  lastReceiveTime :: int
  lastReceiveSize :: int
  lastReceiveNumFamilies :: int
  currentCountFamilies :: int
  currentCountSeries :: int
  currentCountDatapoints :: int

text \<open>
  The hub with the two gauges \<^verbatim>\<open>hub_limit\<close> and \<^verbatim>\<open>hub_size\<close>. The gauges are package
  variables of the source, one pair per process; a gauge holds the \<^verbatim>\<open>float64\<close> of an
  \<^verbatim>\<open>int\<close>, kept here as that integer. Go's \<^verbatim>\<open>int\<close> has 64 bits and the counters count
  samples held in memory, so they are unbounded integers here.
\<close>

record 'v MetricHub =
  metricFamiliesByName :: "'v store"
  limit :: int
  stats :: hubStats
  scrapeTimeout :: int
  hubLimit :: int
  hubSize :: int

definition NewMetricHub :: "int \<Rightarrow> int \<Rightarrow> 'v MetricHub" where
  "NewMetricHub lim timeout =
     \<lparr>metricFamiliesByName = [],
      limit = lim,
      stats = \<lparr>lastScrapeTime = 0, lastScrapeSize = 0, lastScrapeNumFamilies = 0,
               lastReceiveTime = 0, lastReceiveSize = 0, lastReceiveNumFamilies = 0,
               currentCountFamilies = 0, currentCountSeries = 0, currentCountDatapoints = 0\<rparr>,
      scrapeTimeout = timeout,
      hubLimit = lim,
      hubSize = 0\<rparr>"

text \<open>
  \<^verbatim>\<open>hubMetrics\<close> ranges over the pushed families (a Go map, here in one of its iteration
  orders). A panic leaves the store as far as it was merged.
\<close>

fun hubMetrics ::
  "growth \<Rightarrow> 'v store \<Rightarrow> 'v MetricFamily list \<Rightarrow> failure option \<times> 'v store" where
  "hubMetrics grow st [] = (None, st)"
| "hubMetrics grow st (fam # rest) =
     (case map_of st (GetName fam) of
        Some families \<Rightarrow>
          (case addMetrics grow families (Metric fam) of
             (Some p, families') \<Rightarrow> (Some p, AList.update (GetName fam) families' st)
           | (None, families') \<Rightarrow>
               hubMetrics grow (AList.update (GetName fam) families' st) rest)
      | None \<Rightarrow>
          (case newFamilyAndMetrics grow fam of
             Inl p \<Rightarrow> (Some p, st)
           | Inr created \<Rightarrow> hubMetrics grow (AList.update (GetName fam) created st) rest))"

datatype body =
  NoContent
  | ParseErrorText string
  | OverfillText int int int
  | Exposition string
  | DebugText "int option" hubStats "string option"

type_synonym response = "nat \<times> body"

text \<open>
  A push as \<^verbatim>\<open>Receive\<close> sees it: what the text parser made of the body (its error, or
  the families), the request's content length, and the clock.
\<close>

record 'v push =
  parsed :: "string + 'v MetricFamily list"
  ContentLength :: int
  receivedAt :: int

definition countNew :: "'v MetricFamily list \<Rightarrow> int" where
  "countNew parsedFamilies =
     foldl (\<lambda>newDatapoints fam. newDatapoints + int (length (Metric fam))) 0 parsedFamilies"

definition Receive ::
  "growth \<Rightarrow> 'v MetricHub \<Rightarrow> 'v push \<Rightarrow> (failure + response) \<times> 'v MetricHub" where
  "Receive grow c req =
     (case parsed req of
        Inl err \<Rightarrow> (Inr (400, ParseErrorText err), c)
      | Inr parsedFamilies \<Rightarrow>
          (let newDatapoints = countNew parsedFamilies
           in if limit c > 0 \<and> currentCountDatapoints (stats c) + newDatapoints > limit c
              then (Inr (406, OverfillText newDatapoints (limit c)
                                (currentCountDatapoints (stats c))), c)
              else (case hubMetrics grow (metricFamiliesByName c) parsedFamilies of
                      (Some p, st) \<Rightarrow> (Inl p, c\<lparr>metricFamiliesByName := st\<rparr>)
                    | (None, st) \<Rightarrow>
                        (Inr (200, NoContent),
                         c\<lparr>metricFamiliesByName := st,
                           stats := (stats c)
                             \<lparr>lastReceiveTime := receivedAt req,
                              lastReceiveSize := ContentLength req,
                              lastReceiveNumFamilies := int (length parsedFamilies),
                              currentCountDatapoints :=
                                currentCountDatapoints (stats c) + newDatapoints\<rparr>,
                           hubSize := currentCountDatapoints (stats c) + newDatapoints\<rparr>))))"

subsection \<open>Rendering\<close>

text \<open>
  The exposition codec \<^verbatim>\<open>expfmt.MetricFamilyToText\<close> is a library outside the
  repository: a parameter that gives what was written to the buffer and the error, if
  any. \<^verbatim>\<open>familyToString\<close> drops the buffer on an error.
\<close>

type_synonym 'v codec = "'v MetricFamily \<Rightarrow> string \<times> string option"

definition familyToString :: "'v codec \<Rightarrow> 'v MetricFamily \<Rightarrow> string + string" where
  "familyToString enc fam =
     (case enc fam of
        (buf, Some err) \<Rightarrow> Inl (''error writing family string: '' @ err)
      | (buf, None) \<Rightarrow> Inr buf)"

datatype logLine = MetricDropped string string | TimeoutReached

text \<open>
  The workers take the families from the channel one by one; which worker renders a
  family, and in which order the results reach the aggregator, is the scheduler's choice.
  The model renders them in the order of the snapshot, which is the order of a pool of
  one worker. The log line of a failed family dereferences \<^verbatim>\<open>*pullFamily.Name\<close>.
\<close>

fun processFamilyWorker ::
  "'v codec \<Rightarrow> 'v familyAndMetrics list \<Rightarrow> failure + (string list \<times> logLine list)" where
  "processFamilyWorker enc [] = Inr ([], [])"
| "processFamilyWorker enc (fam # fams) =
     (let pullFamily = popDatapoints fam
      in case familyToString enc pullFamily of
           Inl err \<Rightarrow>
             (case Name pullFamily of
                None \<Rightarrow> Inl NilDereference
              | Some n \<Rightarrow>
                  (case processFamilyWorker enc fams of
                     Inl p \<Rightarrow> Inl p
                   | Inr (results, logged) \<Rightarrow> Inr (results, MetricDropped n err # logged)))
         | Inr familyStr \<Rightarrow>
             (case processFamilyWorker enc fams of
                Inl p \<Rightarrow> Inl p
              | Inr (results, logged) \<Rightarrow> Inr (familyStr # results, logged)))"

definition processFamilyStringsWorker :: "string list \<Rightarrow> string" where
  "processFamilyStringsWorker results = foldl (\<lambda>resp result. resp @ result) [] results"

text \<open>
  \<^verbatim>\<open>exposeMetrics\<close> waits for the workers and then selects between the aggregated
  string and the timer. Which case the \<^verbatim>\<open>select\<close> takes depends on the clock and the
  scheduler: \<open>timerFired\<close> says that it took the timer. With no worker and a family to
  send, the send never returns.
\<close>

definition exposeMetrics ::
  "'v codec \<Rightarrow> bool \<Rightarrow> 'v store \<Rightarrow> int \<Rightarrow> failure + (string \<times> logLine list)" where
  "exposeMetrics enc timerFired byName workers =
     (if workers < 0 then Inl NegativeChanSize
      else if workers = 0 \<and> byName \<noteq> [] then Inl BlockedForever
      else (case processFamilyWorker enc (map snd byName) of
              Inl p \<Rightarrow> Inl p
            | Inr (results, logged) \<Rightarrow>
                if timerFired then Inr ([], logged @ [TimeoutReached])
                else Inr (processFamilyStringsWorker results, logged)))"

definition scrapeWorkerPoolSize :: int where
  "scrapeWorkerPoolSize = 100"

definition clearMetrics :: "'v MetricHub \<Rightarrow> 'v MetricHub" where
  "clearMetrics c = c\<lparr>metricFamiliesByName := []\<rparr>"

text \<open>
  A panic in a worker ends the process; the hub returned with it is the hub at that
  moment.
\<close>

definition Scrape ::
  "'v codec \<Rightarrow> bool \<Rightarrow> int \<Rightarrow> 'v MetricHub \<Rightarrow> (failure + response) \<times> 'v MetricHub" where
  "Scrape enc timerFired now c =
     (let scrapeMetrics = metricFamiliesByName c;
          c1 = clearMetrics c
      in case exposeMetrics enc timerFired scrapeMetrics scrapeWorkerPoolSize of
           Inl p \<Rightarrow> (Inl p, c1)
         | Inr (expositionString, logged) \<Rightarrow>
             (Inr (200, Exposition expositionString),
              c1\<lparr>stats := (stats c1)
                   \<lparr>lastScrapeTime := now,
                    lastScrapeSize := int (length expositionString),
                    lastScrapeNumFamilies := int (length scrapeMetrics),
                    currentCountDatapoints := 0\<rparr>,
                 hubSize := 0\<rparr>))"

text \<open>
  The select of \<^verbatim>\<open>exposeMetrics\<close> in time. The timer is
  \<^verbatim>\<open>time.After(time.Duration(c.scrapeTimeout) * time.Second)\<close>, created when the
  select is entered, which is after \<^verbatim>\<open>waitGroup.Wait()\<close> has returned: it runs from
  then. A \<^verbatim>\<open>time.Duration\<close> is an \<^verbatim>\<open>int64\<close> of nanoseconds and the product wraps
  around; a duration that is not positive fires at once. The elapsed times are inputs,
  in nanoseconds: \<open>workersDone\<close> from the call until \<^verbatim>\<open>waitGroup.Wait()\<close> returns,
  \<open>responseLag\<close> from then until the aggregated string is on \<^verbatim>\<open>respCh\<close>, and the choice
  of the select when both cases are ready at the same instant.
\<close>

definition timerDuration :: "int \<Rightarrow> int" where
  "timerDuration timeout =
     (let n = (timeout * 1000000000) mod 2 ^ 64
      in if n < 2 ^ 63 then n else n - 2 ^ 64)"

record renderTiming =
  workersDone :: int
  responseLag :: int
  timerWinsTie :: bool

definition selectTakesTimer :: "int \<Rightarrow> renderTiming \<Rightarrow> bool" where
  "selectTakesTimer timeout timing =
     (let selectEntered = workersDone timing;
          timerAt = selectEntered + max 0 (timerDuration timeout);
          responseAt = selectEntered + responseLag timing
      in timerAt < responseAt \<or> (timerAt = responseAt \<and> timerWinsTie timing))"

definition renderTook :: "renderTiming \<Rightarrow> int" where
  "renderTook timing = workersDone timing + responseLag timing"

definition ScrapeTimed ::
  "'v codec \<Rightarrow> renderTiming \<Rightarrow> int \<Rightarrow> 'v MetricHub \<Rightarrow> (failure + response) \<times> 'v MetricHub" where
  "ScrapeTimed enc timing now c = Scrape enc (selectTakesTimer (scrapeTimeout c) timing) now c"

definition updateCountStats :: "'v MetricHub \<Rightarrow> 'v MetricHub" where
  "updateCountStats c =
     (let numFamilies = int (length (metricFamiliesByName c));
          numSeries = foldl (\<lambda>n (name, fam). n + int (length (metrics fam))) 0
                        (metricFamiliesByName c);
          numDatapoints =
            foldl (\<lambda>n (name, fam).
                     foldl (\<lambda>k (labeled, series). k + int (length (elems series))) n (metrics fam))
              0 (metricFamiliesByName c)
      in c\<lparr>stats := (stats c)
             \<lparr>currentCountFamilies := numFamilies,
              currentCountSeries := numSeries,
              currentCountDatapoints := numDatapoints\<rparr>\<rparr>)"

text \<open>
  \<^verbatim>\<open>Debug\<close> recounts and reports. The report is kept as its parts: the limit
  (\<open>None\<close> prints as \<^verbatim>\<open>None\<close>), the counters, and the exposition text when
  \<^verbatim>\<open>verbose\<close> is not empty; the host name and the formatting of the utilisation are left
  out.
\<close>

definition Debug ::
  "'v codec \<Rightarrow> bool \<Rightarrow> string \<Rightarrow> 'v MetricHub \<Rightarrow> (failure + response) \<times> 'v MetricHub" where
  "Debug enc timerFired verbose c =
     (let c1 = updateCountStats c;
          limitValue = (if limit c1 \<le> 0 then None else Some (limit c1))
      in if verbose \<noteq> []
         then (case exposeMetrics enc timerFired (metricFamiliesByName c1) scrapeWorkerPoolSize of
                 Inl p \<Rightarrow> (Inl p, c1)
               | Inr (text, logged) \<Rightarrow>
                   (Inr (200, DebugText limitValue (stats c1) (Some text)), c1))
         else (Inr (200, DebugText limitValue (stats c1) None), c1))"

section \<open>The distributor\<close>

text \<open>
  The ring is \<^verbatim>\<open>hashring.New(edgeHubArray)\<close> of a library outside the repository: the
  field \<open>ring\<close> is its \<^verbatim>\<open>GetNode\<close>, which returns the node and whether there is one.
\<close>

record Distributor =
  keyLabel :: string
  edgeHubArray :: "string list"
  ring :: "string \<Rightarrow> string \<times> bool"

fun getKeyLabelValue_loop :: "LabelPair list \<Rightarrow> string \<Rightarrow> failure + string" where
  "getKeyLabelValue_loop [] key = Inr []"
| "getKeyLabelValue_loop (label # rest) key =
     (case lpName label of
        None \<Rightarrow> Inl NilDereference
      | Some n \<Rightarrow> if n = key then Inr (LabelPair_GetValue label)
                  else getKeyLabelValue_loop rest key)"

definition getKeyLabelValue :: "'v Metric \<Rightarrow> string \<Rightarrow> failure + string" where
  "getKeyLabelValue metric key = getKeyLabelValue_loop (Label metric) key"

type_synonym 'v distSet = "(string \<times> (string \<times> 'v MetricFamily) list) list"

datatype 'v distLog = HashPositionNotFound "'v Metric"

text \<open>
  The inner loop of \<^verbatim>\<open>ReceiveGRPC\<close> over the metrics of one family. After a failed
  lookup the source logs and goes on with the hub it was given. Reading
  \<^verbatim>\<open>distSet[hub][name]\<close> where \<^verbatim>\<open>distSet[hub]\<close> is missing reads a nil map and finds
  nothing; the assignment into that nil map panics.
\<close>

fun distribute ::
  "Distributor \<Rightarrow> 'v MetricFamily \<Rightarrow> 'v Metric list \<Rightarrow> 'v distSet \<Rightarrow> 'v distLog list
     \<Rightarrow> 'v distLog list \<times> (failure + 'v distSet)" where
  "distribute d fam [] distSet logged = (logged, Inr distSet)"
| "distribute d fam (met # mets) distSet logged =
     (case getKeyLabelValue met (keyLabel d) of
        Inl p \<Rightarrow> (logged, Inl p)
      | Inr labelVal \<Rightarrow>
          (case ring d labelVal of
             (hub, ok) \<Rightarrow>
               (let logged' = (if \<not> ok then logged @ [HashPositionNotFound met] else logged)
                in case map_of distSet hub of
                     None \<Rightarrow> (logged', Inl NilMapAssignment)
                   | Some slot \<Rightarrow>
                       (case map_of slot (GetName fam) of
                          Some aggregated \<Rightarrow>
                            distribute d fam mets
                              (AList.update hub
                                 (AList.update (GetName fam)
                                    (aggregated\<lparr>Metric := Metric aggregated @ [met]\<rparr>) slot)
                                 distSet)
                              logged'
                        | None \<Rightarrow>
                            distribute d fam mets
                              (AList.update hub
                                 (AList.update (GetName fam)
                                    \<lparr>Name = Name fam, Help = Help fam, Type = Type fam,
                                     Metric = [met]\<rparr> slot)
                                 distSet)
                              logged'))))"

fun distributeFamilies ::
  "Distributor \<Rightarrow> 'v MetricFamily list \<Rightarrow> 'v distSet \<Rightarrow> 'v distLog list
     \<Rightarrow> 'v distLog list \<times> (failure + 'v distSet)" where
  "distributeFamilies d [] distSet logged = (logged, Inr distSet)"
| "distributeFamilies d (fam # fams) distSet logged =
     (case distribute d fam (Metric fam) distSet logged of
        (logged', Inl p) \<Rightarrow> (logged', Inl p)
      | (logged', Inr distSet') \<Rightarrow> distributeFamilies d fams distSet' logged')"

text \<open>
  \<^verbatim>\<open>ReceiveGRPC\<close> up to the call of \<^verbatim>\<open>sendToHubs\<close>: the result is the log and the
  batches that are sent, one per hub.
\<close>

definition ReceiveGRPC ::
  "Distributor \<Rightarrow> 'v MetricFamily list \<Rightarrow> 'v distLog list \<times> (failure + 'v distSet)" where
  "ReceiveGRPC d families =
     distributeFamilies d families
       (foldl (\<lambda>distSet hub. AList.update hub [] distSet) [] (edgeHubArray d)) []"

section \<open>Measures of the store and example inputs\<close>

text \<open>The samples of the live store, queue by queue, and the sum of the queue lengths.\<close>

definition storeSamples :: "'v store \<Rightarrow> 'v Metric list" where
  "storeSamples st =
     concat (map (\<lambda>(name, fam). concat (map (\<lambda>(labeled, series). elems series) (metrics fam))) st)"

definition queueLengthSum :: "'v store \<Rightarrow> int" where
  "queueLengthSum st =
     sum_list (map (\<lambda>(name, fam).
                 sum_list (map (\<lambda>(labeled, series). int (length (elems series))) (metrics fam))) st)"

text \<open>A sequence of pushes, each handled by \<^verbatim>\<open>Receive\<close> on the hub the last one left.\<close>

fun pushAll :: "growth \<Rightarrow> 'v MetricHub \<Rightarrow> 'v push list \<Rightarrow> 'v MetricHub" where
  "pushAll grow c [] = c"
| "pushAll grow c (req # reqs) = pushAll grow (snd (Receive grow c req)) reqs"

text \<open>
  Example inputs. \<open>familyOf n ms\<close> is what the text parser makes of the lines of a
  family \<open>n\<close> without \<^verbatim>\<open>HELP\<close> and \<^verbatim>\<open>TYPE\<close> comments; \<open>sampleAt t\<close> is a sample
  without labels, as in the repository's test of the ordering.
\<close>

definition sampleAt :: "int \<Rightarrow> 'v Metric" where
  "sampleAt t = \<lparr>Label = [], Payload = None, TimestampMs = Some t\<rparr>"

definition sample :: "LabelPair list \<Rightarrow> int \<Rightarrow> nat Metric" where
  "sample ls t = \<lparr>Label = ls, Payload = Some 3, TimestampMs = Some t\<rparr>"

definition labelled :: "string \<Rightarrow> string \<Rightarrow> LabelPair" where
  "labelled n v = \<lparr>lpName = Some n, lpValue = Some v\<rparr>"

definition familyOf :: "string \<Rightarrow> 'v Metric list \<Rightarrow> 'v MetricFamily" where
  "familyOf n ms = \<lparr>Name = Some n, Help = None, Type = Some UNTYPED, Metric = ms\<rparr>"

definition pushOf :: "'v MetricFamily list \<Rightarrow> 'v push" where
  "pushOf fams = \<lparr>parsed = Inr fams, ContentLength = 0, receivedAt = 0\<rparr>"

text \<open>The samples of a family's queues and of a pushed batch.\<close>

definition queueSamples :: "'v queues \<Rightarrow> 'v Metric list" where
  "queueSamples qs = concat (map (\<lambda>(labeled, series). elems series) qs)"

definition batchSamples :: "'v MetricFamily list \<Rightarrow> 'v Metric list" where
  "batchSamples fams = concat (map Metric fams)"

text \<open>A sample as \<^verbatim>\<open>makeLabeledName\<close> leaves it: its label pairs sorted by name.\<close>

definition sortedLabels :: "'v Metric \<Rightarrow> 'v Metric" where
  "sortedLabels m = m\<lparr>Label := sortSlice (Label m)\<rparr>"

text \<open>
  An example of a codec, for concrete inputs only: it has the two fail-fast checks of the
  library (a family without samples, a family without a name) and writes the type line
  and one line per sample.
\<close>

definition checkingCodec :: "'v codec" where
  "checkingCodec fam =
     (if Metric fam = [] then ([], Some ''MetricFamily has no metrics'')
      else if GetName fam = [] then ([], Some ''MetricFamily has no name'')
      else (''# TYPE '' @ GetName fam @ [CHR 0x0A]
              @ concat (map (\<lambda>m. GetName fam @ [CHR 0x0A]) (Metric fam)), None))"

text \<open>The first scenario of the specification, and a hub after one push.\<close>

definition scenarioS1 :: "nat MetricFamily list" where
  "scenarioS1 =
     [\<lparr>Name = Some ''http_requests_total'', Help = Some ''The total number of HTTP requests.'',
       Type = Some COUNTER,
       Metric = [sample [labelled ''method'' ''post'', labelled ''code'' ''200''] 1395066363410,
                 sample [labelled ''method'' ''post'', labelled ''code'' ''400''] 1395066363021,
                 sample [labelled ''method'' ''post'', labelled ''code'' ''400''] 1395066363010]\<rparr>,
      \<lparr>Name = Some ''cpu_usage'', Help = Some ''The total CPU usage.'', Type = Some GAUGE,
       Metric = [sample [labelled ''host'' ''A''] 1395066363000,
                 sample [labelled ''host'' ''B''] 1395066363100]\<rparr>]"

definition hubWithThree :: "nat MetricHub" where
  "hubWithThree = pushAll (\<lambda>c. 2 * c) (NewMetricHub 0 10)
     [pushOf [familyOf ''mf1'' [sampleAt 3, sampleAt 1, sampleAt 2]]]"

definition postThenCode :: "nat Metric" where
  "postThenCode = sample [labelled ''method'' ''post'', labelled ''code'' ''200''] 1395066363410"

text \<open>A family whose \<^verbatim>\<open>Name\<close> pointer is nil, as a decoded message without the field.\<close>

definition nameless :: "'v Metric list \<Rightarrow> 'v MetricFamily" where
  "nameless ms = \<lparr>Name = None, Help = None, Type = None, Metric = ms\<rparr>"

text \<open>
  A queue as the store is meant to keep it: not empty, every sample with a timestamp, the
  timestamps in non-decreasing order.
\<close>

definition queueOrdered :: "'v Metric slice \<Rightarrow> bool" where
  "queueOrdered q =
     (elems q \<noteq> [] \<and> list_all (\<lambda>m. TimestampMs m \<noteq> None) (elems q)
      \<and> sorted (map (\<lambda>m. the (TimestampMs m)) (elems q)))"

text \<open>
  The samples that \<^verbatim>\<open>ReceiveGRPC\<close> forwards, hub by hub and family by family; that a
  sample belongs to a hub by the ring; and that an aggregated family carries the name,
  help and type of a pushed family of its name.
\<close>

definition slotSamples :: "(string \<times> 'v MetricFamily) list \<Rightarrow> 'v Metric list" where
  "slotSamples slot = concat (map (\<lambda>(name, fam). Metric fam) slot)"

definition forwarded :: "'v distSet \<Rightarrow> 'v Metric list" where
  "forwarded distSet = concat (map (\<lambda>(hub, slot). slotSamples slot) distSet)"

definition routedTo :: "Distributor \<Rightarrow> string \<Rightarrow> 'v Metric \<Rightarrow> bool" where
  "routedTo d hub met =
     (case getKeyLabelValue met (keyLabel d) of
        Inl p \<Rightarrow> False
      | Inr labelVal \<Rightarrow> fst (ring d labelVal) = hub)"

definition sameMetadata :: "'v MetricFamily set \<Rightarrow> string \<Rightarrow> 'v MetricFamily \<Rightarrow> bool" where
  "sameMetadata sources n aggregated =
     (\<exists>src\<in>sources. n = GetName src \<and> Name aggregated = Name src
        \<and> Help aggregated = Help src \<and> Type aggregated = Type src)"

text \<open>
  A sample without a timestamp, as the text parser makes of a line that gives none; a
  push of one sample of a series \<^verbatim>\<open>mf1\<close>; and a push of the two lines
  \<^verbatim>\<open>mf1{k="a"} 3 2\<close> and \<^verbatim>\<open>mf1 3\<close>.
\<close>

definition untimed :: "LabelPair list \<Rightarrow> nat Metric" where
  "untimed ls = \<lparr>Label = ls, Payload = Some 3, TimestampMs = None\<rparr>"

definition seedPush :: "nat push" where
  "seedPush = pushOf [familyOf ''mf1'' [sample [] 1]]"

definition halfStoredPush :: "nat push" where
  "halfStoredPush = pushOf [familyOf ''mf1'' [sample [labelled ''k'' ''a''] 2, untimed []]]"

text \<open>A sequence of pushes none of which ends in a panic.\<close>

fun noPanic :: "growth \<Rightarrow> 'v MetricHub \<Rightarrow> 'v push list \<Rightarrow> bool" where
  "noPanic grow c [] = True"
| "noPanic grow c (req # reqs) =
     (case Receive grow c req of
        (Inl p, c') \<Rightarrow> False
      | (Inr r, c') \<Rightarrow> noPanic grow c' reqs)"

text \<open>A hub with a scrape timeout of one second, after one push.\<close>

definition hubTimeoutOne :: "nat MetricHub" where
  "hubTimeoutOne = pushAll (\<lambda>c. 2 * c) (NewMetricHub 0 1)
     [pushOf [familyOf ''mf1'' [sampleAt 3, sampleAt 1, sampleAt 2]]]"

section \<open>Properties of the store\<close>

lemmas eval_defs =
  familyOf_def sampleAt_def sample_def labelled_def pushOf_def
  GetName_def LabelPair_GetName_def LabelPair_GetValue_def labelSegment_def
  makeLabeledName_def sortSlice_def slice1_def notBeforeLast_def sortedInsert_def Search_def
  timestampGreater_def go_append_def go_copy_def emptyMetric_def
  newFamilyAndMetrics_def Receive_def countNew_def NewMetricHub_def
  storeSamples_def queueLengthSum_def

lemmas render_defs =
  Scrape_def exposeMetrics_def scrapeWorkerPoolSize_def clearMetrics_def
  processFamilyStringsWorker_def popDatapoints_def copyFamily_def familyToString_def
  checkingCodec_def

subsection \<open>The binary search and the insertion\<close>

lemma Search_loop_bounds:
  "Search_loop f i j = Inr k \<Longrightarrow> i \<le> j \<Longrightarrow> i \<le> k \<and> k \<le> j"
proof (induction f i j rule: Search_loop.induct)
  case (1 f i j)
  show ?case
  proof (cases "i < j")
    case False
    with "1.prems" show ?thesis by simp
  next
    case True
    let ?h = "(i + j) div 2"
    from True have hb: "i \<le> ?h" "?h < j" by auto
    from "1.prems"(1) True obtain b where fb: "f ?h = Inr b"
      by (cases "f ?h") (simp_all)
    show ?thesis
    proof (cases b)
      case True
      with "1.prems"(1) \<open>i < j\<close> fb have "Search_loop f i ?h = Inr k" by simp
      with "1.IH"(2)[OF \<open>i < j\<close> fb] True hb show ?thesis by auto
    next
      case False
      with "1.prems"(1) \<open>i < j\<close> fb have "Search_loop f (?h + 1) j = Inr k" by simp
      with "1.IH"(1)[OF \<open>i < j\<close> fb] False hb show ?thesis by auto
    qed
  qed
qed

lemma Search_bounds: "Search n f = Inr k \<Longrightarrow> k \<le> n"
  using Search_loop_bounds[of f 0 n k] by (simp add: Search_def)

lemma go_copy_insert:
  "k \<le> length xs \<Longrightarrow> (go_copy (xs @ [e]) (Suc k) k)[k := el] = take k xs @ el # drop k xs"
  by (simp add: go_copy_def min_def list_update_append nth_append upd_conv_take_nth_drop
        take_Suc_conv_app_nth)

lemma sortedInsert_shape:
  assumes "sortedInsert grow data el = Inr (inserted, aliased)"
  shows "\<exists>k\<le>length (elems data).
           elems inserted = take k (elems data) @ el # drop k (elems data) \<and>
           aliased = (if length (elems data) < cap data
                      then data\<lparr>elems := take (length (elems data)) (elems inserted)\<rparr>
                      else data)"
proof -
  from assms obtain k
    where k: "Search (length (elems data)) (timestampGreater (elems data) el) = Inr k"
    by (cases "Search (length (elems data)) (timestampGreater (elems data) el)")
       (simp_all add: sortedInsert_def)
  then have kl: "k \<le> length (elems data)" by (rule Search_bounds)
  have "elems (go_append grow data emptyMetric) = elems data @ [emptyMetric]"
    by (simp add: go_append_def)
  with assms k kl have "elems inserted = take k (elems data) @ el # drop k (elems data)"
    by (auto simp add: sortedInsert_def Let_def go_copy_insert)
  moreover from assms k have "aliased = (if length (elems data) < cap data
                      then data\<lparr>elems := take (length (elems data)) (elems inserted)\<rparr>
                      else data)"
    by (auto simp add: sortedInsert_def Let_def)
  ultimately show ?thesis using kl by blast
qed

text \<open>
  Claim C1 says that after a merge every series queue holds the samples it held before
  and the samples of the batch for that series, in timestamp order, the result of the
  sorted insertion being stored back for the series. \<^verbatim>\<open>addMetrics\<close> does not store it
  back. On a hub that holds one sample at timestamp 5 for a series, a push of a sample
  at timestamp 3 for that series is accepted and the sample is not in the store
  afterwards, whatever the growth of the runtime. With arrays that double, after pushes
  at 5, 6 and 7 the queue has room for a fourth element: a push at 1 is written into the
  shared array, and the queue, still three long, shows 1, 5, 6 and no longer the sample
  at 7.
\<close>

theorem addMetrics_out_of_order_not_stored:
  "storeSamples (metricFamiliesByName (pushAll grow (NewMetricHub 0 10)
      [pushOf [familyOf ''mf1'' [sampleAt 5]],
       pushOf [familyOf ''mf1'' [sampleAt 3 :: 'v Metric]]]))
     = [sampleAt 5]
   \<and> storeSamples (metricFamiliesByName (pushAll (\<lambda>c. 2 * c) (NewMetricHub 0 10)
      [pushOf [familyOf ''mf1'' [sampleAt 5]], pushOf [familyOf ''mf1'' [sampleAt 6]],
       pushOf [familyOf ''mf1'' [sampleAt 7]],
       pushOf [familyOf ''mf1'' [sampleAt 1 :: 'v Metric]]]))
     = [sampleAt 1, sampleAt 5, sampleAt 6]"
  by (simp add: eval_defs)

text \<open>
  Claim C4 says that the counter of buffered samples, exported as \<^verbatim>\<open>hub_size\<close>, is
  the sum of the queue lengths of the live store, and that every operation keeps it so.
  After the two accepted pushes of one sample each, at timestamps 5 and then 3 for one
  series, the counter and the gauge are 2 and the store holds one sample.
\<close>

theorem hub_size_not_queue_length_sum:
  "currentCountDatapoints (stats (pushAll grow (NewMetricHub 0 10)
      [pushOf [familyOf ''mf1'' [sampleAt 5]],
       pushOf [familyOf ''mf1'' [sampleAt 3 :: 'v Metric]]])) = 2
   \<and> hubSize (pushAll grow (NewMetricHub 0 10)
      [pushOf [familyOf ''mf1'' [sampleAt 5]],
       pushOf [familyOf ''mf1'' [sampleAt 3 :: 'v Metric]]]) = 2
   \<and> queueLengthSum (metricFamiliesByName (pushAll grow (NewMetricHub 0 10)
      [pushOf [familyOf ''mf1'' [sampleAt 5]],
       pushOf [familyOf ''mf1'' [sampleAt 3 :: 'v Metric]]])) = 1"
  by (simp add: eval_defs)

subsection \<open>The canonical labeled name\<close>

lemma foldl_labelSegment:
  "foldl (\<lambda>labeledName labelPair. labeledName @ labelSegment labelPair) acc ls
     = acc @ concat (map labelSegment ls)"
  by (induction ls arbitrary: acc) simp_all

lemma sort_key_perm_distinct:
  assumes "distinct (map f xs)" "mset ys = mset xs"
  shows "sort_key f ys = sort_key f xs"
proof -
  have sxy: "set ys = set xs" using assms(2) by (metis set_mset_mset)
  have dy: "distinct (map f ys)"
  proof -
    have "mset (map f ys) = mset (map f xs)" using assms(2) by (metis mset_map)
    then show ?thesis using assms(1)
      by (metis distinct_count_atmost_1 count_mset_0_iff mset_eq_setD set_mset_mset)
  qed
  have inj: "inj_on f (set xs)" using assms(1) by (simp add: distinct_map)
  have "map f (sort_key f ys) = map f (sort_key f xs)"
  proof (rule sorted_distinct_set_unique)
    show "sorted (map f (sort_key f ys))" by simp
    show "sorted (map f (sort_key f xs))" by simp
    show "distinct (map f (sort_key f ys))" using dy by (simp add: distinct_map)
    show "distinct (map f (sort_key f xs))" using assms(1) by (simp add: distinct_map)
    show "set (map f (sort_key f ys)) = set (map f (sort_key f xs))" using sxy by simp
  qed
  moreover have "inj_on f (set (sort_key f ys) \<union> set (sort_key f xs))" using inj sxy by simp
  ultimately show ?thesis by (rule map_inj_on)
qed

lemma makeLabeledName_fst:
  "fst (makeLabeledName m n) = n @ concat (map labelSegment (sortSlice (Label m)))"
  by (simp add: makeLabeledName_def Let_def foldl_labelSegment)

lemma makeLabeledName_snd:
  "snd (makeLabeledName m n) = m\<lparr>Label := sortSlice (Label m)\<rparr>"
  by (simp add: makeLabeledName_def Let_def)

lemma makeLabeledName_perm:
  assumes "distinct (map LabelPair_GetName (Label m))" "mset (Label m') = mset (Label m)"
  shows "fst (makeLabeledName m' n) = fst (makeLabeledName m n)"
  using sort_key_perm_distinct[OF assms] by (simp add: makeLabeledName_fst sortSlice_def)

lemma newQueues_two:
  assumes same: "fst (makeLabeledName m' n) = fst (makeLabeledName m n)"
    and t: "TimestampMs m = Some t" and t': "TimestampMs m' = Some t'"
  shows "\<exists>q. newQueues grow n [] [m, m'] = Inr [(fst (makeLabeledName m n), q)]
             \<and> mset (elems q) = {#snd (makeLabeledName m n), snd (makeLabeledName m' n)#}"
proof -
  obtain k s where ks: "makeLabeledName m n = (k, s)" by (cases "makeLabeledName m n")
  obtain k' s' where ks': "makeLabeledName m' n = (k', s')" by (cases "makeLabeledName m' n")
  from same ks ks' have kk: "k' = k" by simp
  have ts: "TimestampMs s = Some t" using ks t by (auto simp add: makeLabeledName_def Let_def)
  have ts': "TimestampMs s' = Some t'" using ks' t' by (auto simp add: makeLabeledName_def Let_def)
  show ?thesis
  proof (cases "t \<le> t'")
    case True
    then show ?thesis using ks ks' kk ts ts'
      by (simp add: slice1_def notBeforeLast_def go_append_def)
  next
    case False
    then show ?thesis using ks ks' kk ts ts'
      by (simp add: slice1_def notBeforeLast_def go_append_def sortedInsert_def Search_def
            timestampGreater_def go_copy_def)
  qed
qed

text \<open>
  Claim C5: the canonical labeled name is the family name followed by one
  \<^verbatim>\<open>_name_value\<close> segment per label pair, the pairs in the order of their names; it
  depends on the label pairs and not on the order in which a sample carries them, so
  that two samples with the same label pairs in different orders get the same name and,
  pushed in one family, one queue that holds both. Label names are distinct within a
  sample, as the data model has it.
\<close>

theorem makeLabeledName_canonical:
  "fst (makeLabeledName m n) = n @ concat (map labelSegment (sortSlice (Label m)))
   \<and> sorted (map LabelPair_GetName (sortSlice (Label m)))
   \<and> mset (sortSlice (Label m)) = mset (Label m)
   \<and> (distinct (map LabelPair_GetName (Label m)) \<longrightarrow> mset (Label m') = mset (Label m) \<longrightarrow>
        fst (makeLabeledName m' n) = fst (makeLabeledName m n)
        \<and> (\<forall>t t'. TimestampMs m = Some t \<longrightarrow> TimestampMs m' = Some t' \<longrightarrow>
             (\<exists>q. newQueues grow n [] [m, m'] = Inr [(fst (makeLabeledName m n), q)]
                \<and> mset (elems q) = {#snd (makeLabeledName m n), snd (makeLabeledName m' n)#})))"
proof (intro conjI impI allI)
  show "fst (makeLabeledName m n) = n @ concat (map labelSegment (sortSlice (Label m)))"
    by (rule makeLabeledName_fst)
  show "sorted (map LabelPair_GetName (sortSlice (Label m)))"
    by (simp add: sortSlice_def)
  show "mset (sortSlice (Label m)) = mset (Label m)"
    by (simp add: sortSlice_def)
next
  assume "distinct (map LabelPair_GetName (Label m))" "mset (Label m') = mset (Label m)"
  then show "fst (makeLabeledName m' n) = fst (makeLabeledName m n)"
    by (rule makeLabeledName_perm)
next
  fix t t'
  assume "distinct (map LabelPair_GetName (Label m))" "mset (Label m') = mset (Label m)"
    and "TimestampMs m = Some t" "TimestampMs m' = Some t'"
  then show "\<exists>q. newQueues grow n [] [m, m'] = Inr [(fst (makeLabeledName m n), q)]
                \<and> mset (elems q) = {#snd (makeLabeledName m n), snd (makeLabeledName m' n)#}"
    using newQueues_two makeLabeledName_perm by blast
qed

theorem makeLabeledName_canonical_witness:
  "distinct (map LabelPair_GetName
       (Label (sample [labelled ''method'' ''post'', labelled ''code'' ''400''] 21)))
   \<and> mset (Label (sample [labelled ''code'' ''400'', labelled ''method'' ''post''] 10))
       = mset (Label (sample [labelled ''method'' ''post'', labelled ''code'' ''400''] 21))
   \<and> TimestampMs (sample [labelled ''method'' ''post'', labelled ''code'' ''400''] 21) = Some 21
   \<and> TimestampMs (sample [labelled ''code'' ''400'', labelled ''method'' ''post''] 10) = Some 10
   \<and> fst (makeLabeledName (sample [labelled ''code'' ''400'', labelled ''method'' ''post''] 10)
            ''http_requests_total'')
     = fst (makeLabeledName (sample [labelled ''method'' ''post'', labelled ''code'' ''400''] 21)
            ''http_requests_total'')
   \<and> fst (makeLabeledName (sample [labelled ''method'' ''post'', labelled ''code'' ''400''] 21)
            ''http_requests_total'')
     = ''http_requests_total_code_400_method_post''
   \<and> (\<exists>q. newQueues (\<lambda>c. 2 * c) ''http_requests_total'' []
             [sample [labelled ''method'' ''post'', labelled ''code'' ''400''] 21,
              sample [labelled ''code'' ''400'', labelled ''method'' ''post''] 10]
           = Inr [(fst (makeLabeledName
                     (sample [labelled ''method'' ''post'', labelled ''code'' ''400''] 21)
                     ''http_requests_total''), q)])"
proof -
  let ?m = "sample [labelled ''method'' ''post'', labelled ''code'' ''400''] 21"
  let ?m' = "sample [labelled ''code'' ''400'', labelled ''method'' ''post''] 10"
  have d: "distinct (map LabelPair_GetName (Label ?m))"
    by (simp add: sample_def labelled_def LabelPair_GetName_def)
  have p: "mset (Label ?m') = mset (Label ?m)"
    by (simp add: sample_def)
  have t: "TimestampMs ?m = Some 21" "TimestampMs ?m' = Some 10"
    by (simp_all add: sample_def)
  have e: "''http_requests_total'' @ concat (map labelSegment (sortSlice (Label ?m)))
             = ''http_requests_total_code_400_method_post''"
    by (simp add: sample_def labelled_def LabelPair_GetName_def LabelPair_GetValue_def
          sortSlice_def labelSegment_def)
  from makeLabeledName_canonical [of ?m "''http_requests_total''" ?m' "\<lambda>c. 2 * c"] d p e t
  show ?thesis by metis
qed

text \<open>
  Claim C10: the canonical labeled name does not tell label sets apart. A sample with
  the one label \<^verbatim>\<open>a="b_c"\<close> and a sample with the one label \<^verbatim>\<open>a_b="c"\<close> have
  different label sets and, in any family, the same labeled name, and the store puts
  them into one queue.
\<close>

theorem makeLabeledName_not_injective:
  "Label \<lparr>Label = [labelled ''a'' ''b_c''], Payload = v, TimestampMs = Some 1\<rparr>
     \<noteq> Label \<lparr>Label = [labelled ''a_b'' ''c''], Payload = w, TimestampMs = Some 2\<rparr>
   \<and> fst (makeLabeledName \<lparr>Label = [labelled ''a'' ''b_c''], Payload = v, TimestampMs = Some 1\<rparr> n)
     = fst (makeLabeledName \<lparr>Label = [labelled ''a_b'' ''c''], Payload = w, TimestampMs = Some 2\<rparr> n)
   \<and> hubMetrics grow []
        [familyOf ''f'' [\<lparr>Label = [labelled ''a'' ''b_c''], Payload = v, TimestampMs = Some 1\<rparr>,
                         \<lparr>Label = [labelled ''a_b'' ''c''], Payload = w, TimestampMs = Some 2\<rparr>]]
     = (None, [(''f'', \<lparr>family = familyOf ''f'' [],
                 metrics = [(''f_a_b_c'',
                   \<lparr>elems = [\<lparr>Label = [labelled ''a'' ''b_c''], Payload = v, TimestampMs = Some 1\<rparr>,
                              \<lparr>Label = [labelled ''a_b'' ''c''], Payload = w, TimestampMs = Some 2\<rparr>],
                     cap = max 2 (grow 1)\<rparr>)]\<rparr>)])"
  by (simp add: eval_defs)

section \<open>Properties of the hub\<close>

subsection \<open>Scrape drains the hub\<close>

lemma exposeMetrics_empty:
  "exposeMetrics enc timerFired [] scrapeWorkerPoolSize = Inr ([], if timerFired then [TimeoutReached] else [])"
  by (simp add: exposeMetrics_def scrapeWorkerPoolSize_def processFamilyStringsWorker_def)

text \<open>
  Claim C2: after a scrape has returned, the live store is the empty family map, the
  counter of buffered samples and the \<^verbatim>\<open>hub_size\<close> gauge are zero, and a second
  scrape with no push in between returns status 200 with the empty string as body,
  whichever case its select takes.
\<close>

theorem Scrape_drains:
  assumes "Scrape enc timerFired now c = (Inr r, c')"
  shows "metricFamiliesByName c' = [] \<and> currentCountDatapoints (stats c') = 0 \<and> hubSize c' = 0
         \<and> fst (Scrape enc' timerFired' now' c') = Inr (200, Exposition [])"
proof -
  from assms obtain rendered logged where
    e: "exposeMetrics enc timerFired (metricFamiliesByName c) scrapeWorkerPoolSize = Inr (rendered, logged)"
    by (cases "exposeMetrics enc timerFired (metricFamiliesByName c) scrapeWorkerPoolSize")
       (auto simp add: Scrape_def Let_def)
  with assms have c': "c' = (clearMetrics c)\<lparr>stats := (stats (clearMetrics c))
                   \<lparr>lastScrapeTime := now,
                    lastScrapeSize := int (length rendered),
                    lastScrapeNumFamilies := int (length (metricFamiliesByName c)),
                    currentCountDatapoints := 0\<rparr>,
                 hubSize := 0\<rparr>"
    by (simp add: Scrape_def Let_def)
  then have s: "metricFamiliesByName c' = []" "currentCountDatapoints (stats c') = 0" "hubSize c' = 0"
    by (simp_all add: clearMetrics_def)
  have "fst (Scrape enc' timerFired' now' c') = Inr (200, Exposition [])"
    by (simp add: Scrape_def Let_def s exposeMetrics_empty)
  with s show ?thesis by simp
qed

theorem Scrape_drains_witness:
  "fst (Scrape checkingCodec False 7 hubWithThree)
     = Inr (200, Exposition (''# TYPE mf1'' @ [CHR 0x0A] @ ''mf1'' @ [CHR 0x0A] @ ''mf1'' @ [CHR 0x0A] @ ''mf1'' @ [CHR 0x0A]))
   \<and> metricFamiliesByName (snd (Scrape checkingCodec False 7 hubWithThree)) = []
   \<and> currentCountDatapoints (stats (snd (Scrape checkingCodec False 7 hubWithThree))) = 0
   \<and> hubSize (snd (Scrape checkingCodec False 7 hubWithThree)) = 0
   \<and> fst (Scrape checkingCodec False 8 (snd (Scrape checkingCodec False 7 hubWithThree)))
       = Inr (200, Exposition [])"
proof -
  have f: "fst (Scrape checkingCodec False 7 hubWithThree)
     = Inr (200, Exposition (''# TYPE mf1'' @ [CHR 0x0A] @ ''mf1'' @ [CHR 0x0A] @ ''mf1'' @ [CHR 0x0A] @ ''mf1'' @ [CHR 0x0A]))"
    by (simp add: hubWithThree_def eval_defs render_defs)
  then have "Scrape checkingCodec False 7 hubWithThree
     = (Inr (200, Exposition (''# TYPE mf1'' @ [CHR 0x0A] @ ''mf1'' @ [CHR 0x0A] @ ''mf1'' @ [CHR 0x0A] @ ''mf1'' @ [CHR 0x0A])),
        snd (Scrape checkingCodec False 7 hubWithThree))"
    by (metis prod.collapse)
  from Scrape_drains [OF this, of checkingCodec False 8] f show ?thesis by simp
qed

subsection \<open>Admission\<close>

lemma Receive_invariant:
  assumes "0 < limit c" "currentCountDatapoints (stats c) \<le> limit c" "hubSize c \<le> limit c"
  shows "limit (snd (Receive grow c req)) = limit c
       \<and> currentCountDatapoints (stats (snd (Receive grow c req))) \<le> limit c
       \<and> hubSize (snd (Receive grow c req)) \<le> limit c"
  using assms
  by (auto simp add: Receive_def Let_def split: sum.splits prod.splits option.splits)

lemma pushAll_invariant:
  assumes "0 < limit c" "currentCountDatapoints (stats c) \<le> limit c" "hubSize c \<le> limit c"
  shows "limit (pushAll grow c reqs) = limit c
       \<and> currentCountDatapoints (stats (pushAll grow c reqs)) \<le> limit c
       \<and> hubSize (pushAll grow c reqs) \<le> limit c"
  using assms
proof (induction reqs arbitrary: c)
  case Nil
  then show ?case by simp
next
  case (Cons req reqs)
  from Receive_invariant[OF Cons.prems, of grow req]
  have r: "limit (snd (Receive grow c req)) = limit c"
       "currentCountDatapoints (stats (snd (Receive grow c req))) \<le> limit c"
       "hubSize (snd (Receive grow c req)) \<le> limit c" by simp_all
  with Cons.prems(1) Cons.IH[of "snd (Receive grow c req)"] show ?case by simp
qed

lemma Receive_counter:
  assumes "0 < limit c" "currentCountDatapoints (stats c) \<le> limit c"
  shows "limit (snd (Receive grow c req)) = limit c
       \<and> currentCountDatapoints (stats (snd (Receive grow c req))) \<le> limit c"
  using assms
  by (auto simp add: Receive_def Let_def split: sum.splits prod.splits option.splits)

lemma pushAll_counter:
  assumes "0 < limit c" "currentCountDatapoints (stats c) \<le> limit c"
  shows "currentCountDatapoints (stats (pushAll grow c reqs)) \<le> limit c"
  using assms
proof (induction reqs arbitrary: c)
  case Nil
  then show ?case by simp
next
  case (Cons req reqs)
  from Receive_counter[OF Cons.prems, of grow req]
  have r: "limit (snd (Receive grow c req)) = limit c"
       "currentCountDatapoints (stats (snd (Receive grow c req))) \<le> limit c" by simp_all
  with Cons.prems(1) Cons.IH[of "snd (Receive grow c req)"] show ?case by simp
qed

lemma Receive_overfill:
  assumes "0 < limit c" "parsed req = Inr fams"
    "limit c < currentCountDatapoints (stats c) + countNew fams"
  shows "Receive grow c req
           = (Inr (406, OverfillText (countNew fams) (limit c) (currentCountDatapoints (stats c))), c)"
  using assms by (simp add: Receive_def Let_def)

text \<open>
  The second scenario of the specification: on a new hub with limit 1 the push of the
  five samples of the first scenario is answered with 406 and leaves the hub as it was.
\<close>

lemma overfill_scenario:
  "Receive grow (NewMetricHub 1 10) (pushOf scenarioS1)
     = (Inr (406, OverfillText 5 1 0), NewMetricHub 1 10)"
  by (simp add: Receive_def countNew_def scenarioS1_def pushOf_def NewMetricHub_def)

text \<open>
  Claim C3 says that a push over the limit is rejected and leaves the hub unchanged
  (lemma \<open>Receive_overfill\<close>), and that consequently no sequence of pushes raises the
  number of buffered samples above the limit \<open>L\<close>. The counter that \<^verbatim>\<open>Receive\<close>
  checks stays within \<open>L\<close> (lemma \<open>pushAll_counter\<close>), but the buffer does not. The
  merge dereferences \<^verbatim>\<open>*metric.TimestampMs\<close>: a sample without a timestamp for a
  series that is already queued makes it panic, after the samples before it in the push
  have been stored and before \<^verbatim>\<open>Receive\<close> adds the push to the counter. On a hub with
  limit 3 that holds one sample, each push of a new labelled sample followed by such a
  sample passes the check (1 + 2 is not above 3), stores one sample and panics: after
  three of them the counter and the gauge are 1 and the store holds 4 samples.
\<close>

theorem admission_passed_by_panicking_pushes:
  "limit (pushAll grow (NewMetricHub 3 10) [seedPush, halfStoredPush, halfStoredPush, halfStoredPush]) = 3
   \<and> fst (Receive grow (pushAll grow (NewMetricHub 3 10) [seedPush]) halfStoredPush) = Inl NilDereference
   \<and> currentCountDatapoints (stats (pushAll grow (NewMetricHub 3 10)
        [seedPush, halfStoredPush, halfStoredPush, halfStoredPush])) = 1
   \<and> hubSize (pushAll grow (NewMetricHub 3 10)
        [seedPush, halfStoredPush, halfStoredPush, halfStoredPush]) = 1
   \<and> queueLengthSum (metricFamiliesByName (pushAll grow (NewMetricHub 3 10)
        [seedPush, halfStoredPush, halfStoredPush, halfStoredPush])) = 4"
  by (simp add: seedPush_def halfStoredPush_def untimed_def eval_defs)

subsection \<open>What the hub does to a sample\<close>

lemma storeSamples_queueSamples:
  "storeSamples st = concat (map (\<lambda>(name, fam). queueSamples (metrics fam)) st)"
  by (simp add: storeSamples_def queueSamples_def)

lemma set_update_subset: "set (AList.update k v al) \<subseteq> insert (k, v) (set al)"
  by (induction al) auto

lemma set_queueSamples: "set (queueSamples qs) = (\<Union>(labeled, series)\<in>set qs. set (elems series))"
  by (auto simp add: queueSamples_def)

lemma set_queueSamples_update:
  "set (queueSamples (AList.update k v qs)) \<subseteq> set (queueSamples qs) \<union> set (elems v)"
  using set_update_subset[of k v qs] by (fastforce simp add: set_queueSamples)

lemma map_of_queueSamples:
  "map_of qs k = Some q \<Longrightarrow> set (elems q) \<subseteq> set (queueSamples qs)"
  by (induction qs) (auto simp add: queueSamples_def split: if_splits)

lemma set_storeSamples:
  "set (storeSamples st) = (\<Union>(name, fam)\<in>set st. set (queueSamples (metrics fam)))"
  by (auto simp add: storeSamples_queueSamples)

lemma set_storeSamples_update:
  "set (storeSamples (AList.update k f st)) \<subseteq> set (storeSamples st) \<union> set (queueSamples (metrics f))"
  using set_update_subset[of k f st] by (fastforce simp add: set_storeSamples)

lemma map_of_storeSamples:
  "map_of st k = Some f \<Longrightarrow> set (queueSamples (metrics f)) \<subseteq> set (storeSamples st)"
  by (induction st) (auto simp add: storeSamples_queueSamples split: if_splits)

lemma sortedInsert_elems:
  assumes "sortedInsert grow data el = Inr (inserted, aliased)"
  shows "set (elems inserted) \<subseteq> insert el (set (elems data))"
    and "set (elems aliased) \<subseteq> insert el (set (elems data))"
proof -
  from sortedInsert_shape[OF assms] obtain k where
    k: "k \<le> length (elems data)"
       "elems inserted = take k (elems data) @ el # drop k (elems data)"
       "aliased = (if length (elems data) < cap data
                      then data\<lparr>elems := take (length (elems data)) (elems inserted)\<rparr>
                      else data)" by blast
  show i: "set (elems inserted) \<subseteq> insert el (set (elems data))"
    using k(2) by (auto dest: in_set_takeD in_set_dropD)
  show "set (elems aliased) \<subseteq> insert el (set (elems data))"
    using k(3) i by (auto dest: in_set_takeD)
qed

lemma go_append_elems: "elems (go_append grow s x) = elems s @ [x]"
  by (simp add: go_append_def)

lemma addMetrics_samples:
  "set (queueSamples (metrics (snd (addMetrics grow f ms))))
     \<subseteq> set (queueSamples (metrics f)) \<union> sortedLabels ` set ms"
proof (induction ms arbitrary: f)
  case Nil
  then show ?case by simp
next
  case (Cons metric rest)
  let ?m = "sortedLabels metric"
  obtain name where mk: "makeLabeledName metric (GetName (family f)) = (name, ?m)"
    by (simp add: makeLabeledName_def Let_def sortedLabels_def)
  have step: "set (queueSamples (metrics (snd (addMetrics grow (f\<lparr>metrics := AList.update name q (metrics f)\<rparr>) rest))))
     \<subseteq> set (queueSamples (metrics f)) \<union> sortedLabels ` set (metric # rest)"
    if "set (elems q) \<subseteq> insert ?m (set (queueSamples (metrics f)))" for q
    using Cons.IH[of "f\<lparr>metrics := AList.update name q (metrics f)\<rparr>"]
      set_queueSamples_update[of name q "metrics f"] that by auto
  show ?case
  proof (cases "map_of (metrics f) name")
    case None
    then show ?thesis using mk step[of "slice1 ?m"] by (simp add: slice1_def)
  next
    case (Some queue)
    note q = map_of_queueSamples[OF Some]
    show ?thesis
    proof (cases "notBeforeLast ?m queue")
      case (Inl p)
      then show ?thesis using mk Some by auto
    next
      case (Inr b)
      show ?thesis
      proof (cases b)
        case True
        have "set (elems (go_append grow queue ?m)) \<subseteq> insert ?m (set (queueSamples (metrics f)))"
          using q by (auto simp add: go_append_elems)
        from step[OF this] show ?thesis using mk Some Inr True by simp
      next
        case False
        show ?thesis
        proof (cases "sortedInsert grow queue ?m")
          case (Inl p)
          then show ?thesis using mk Some Inr False by auto
        next
          case (Inr r)
          obtain inserted aliased where r: "r = (inserted, aliased)" by (cases r)
          from sortedInsert_elems(2)[OF Inr[unfolded r]] q
          have "set (elems aliased) \<subseteq> insert ?m (set (queueSamples (metrics f)))" by auto
          from step[OF this] show ?thesis
            using mk Some \<open>notBeforeLast ?m queue = Inr b\<close> False Inr r by simp
        qed
      qed
    qed
  qed
qed


lemma newQueues_samples:
  "newQueues grow n qs ms = Inr qs' \<Longrightarrow>
     set (queueSamples qs') \<subseteq> set (queueSamples qs) \<union> sortedLabels ` set ms"
proof (induction ms arbitrary: qs)
  case Nil
  then show ?case by simp
next
  case (Cons metric rest)
  let ?m = "sortedLabels metric"
  obtain name where mk: "makeLabeledName metric n = (name, ?m)"
    by (simp add: makeLabeledName_def Let_def sortedLabels_def)
  have step: "set (queueSamples qs') \<subseteq> set (queueSamples qs) \<union> sortedLabels ` set (metric # rest)"
    if "set (elems q) \<subseteq> insert ?m (set (queueSamples qs))"
      and "newQueues grow n (AList.update name q qs) rest = Inr qs'" for q
    using Cons.IH[OF that(2)] set_queueSamples_update[of name q qs] that(1) by auto
  show ?case
  proof (cases "map_of qs name")
    case None
    then show ?thesis using mk Cons.prems step[of "slice1 ?m"] by (simp add: slice1_def)
  next
    case (Some queue)
    note q = map_of_queueSamples[OF Some]
    show ?thesis
    proof (cases "notBeforeLast ?m queue")
      case (Inl p)
      then show ?thesis using mk Some Cons.prems by auto
    next
      case (Inr b)
      show ?thesis
      proof (cases b)
        case True
        have "set (elems (go_append grow queue ?m)) \<subseteq> insert ?m (set (queueSamples qs))"
          using q by (auto simp add: go_append_elems)
        from step[OF this] show ?thesis using mk Some Inr True Cons.prems by simp
      next
        case False
        show ?thesis
        proof (cases "sortedInsert grow queue ?m")
          case (Inl p)
          then show ?thesis using mk Some Inr False Cons.prems by auto
        next
          case (Inr r)
          obtain inserted aliased where r: "r = (inserted, aliased)" by (cases r)
          from sortedInsert_elems(1)[OF Inr[unfolded r]] q
          have "set (elems inserted) \<subseteq> insert ?m (set (queueSamples qs))" by auto
          from step[OF this] show ?thesis
            using mk Some \<open>notBeforeLast ?m queue = Inr b\<close> False Inr r Cons.prems by simp
        qed
      qed
    qed
  qed
qed

lemma newFamilyAndMetrics_samples:
  "newFamilyAndMetrics grow fam = Inr created \<Longrightarrow>
     set (queueSamples (metrics created)) \<subseteq> sortedLabels ` set (Metric fam)"
proof -
  assume a: "newFamilyAndMetrics grow fam = Inr created"
  then obtain qs where q: "newQueues grow (GetName fam) [] (Metric fam) = Inr qs"
    and c: "metrics created = qs"
    by (auto simp add: newFamilyAndMetrics_def split: sum.splits)
  have "queueSamples [] = ([] :: 'a Metric list)" by (simp add: queueSamples_def)
  with newQueues_samples[OF q] c show ?thesis by simp
qed

lemma hubMetrics_samples:
  "set (storeSamples (snd (hubMetrics grow st batch)))
     \<subseteq> set (storeSamples st) \<union> sortedLabels ` set (batchSamples batch)"
proof (induction batch arbitrary: st)
  case Nil
  then show ?case by simp
next
  case (Cons fam rest)
  have step: "set (storeSamples (snd (hubMetrics grow (AList.update (GetName fam) f st) rest)))
       \<subseteq> set (storeSamples st) \<union> sortedLabels ` set (batchSamples (fam # rest))"
    if "set (queueSamples (metrics f)) \<subseteq> set (storeSamples st) \<union> sortedLabels ` set (Metric fam)" for f
    using Cons.IH[of "AList.update (GetName fam) f st"]
      set_storeSamples_update[of "GetName fam" f st] that
    by (auto simp add: batchSamples_def)
  show ?case
  proof (cases "map_of st (GetName fam)")
    case None
    show ?thesis
    proof (cases "newFamilyAndMetrics grow fam")
      case (Inl p)
      then show ?thesis using None by auto
    next
      case (Inr created)
      from newFamilyAndMetrics_samples[OF Inr] step[of created] None Inr
      show ?thesis by auto
    qed
  next
    case (Some families)
    obtain p families' where a: "addMetrics grow families (Metric fam) = (p, families')"
      by (cases "addMetrics grow families (Metric fam)")
    from addMetrics_samples[of grow families "Metric fam"] a map_of_storeSamples[OF Some]
    have sub: "set (queueSamples (metrics families')) \<subseteq> set (storeSamples st) \<union> sortedLabels ` set (Metric fam)"
      by auto
    show ?thesis
    proof (cases p)
      case None
      with step[OF sub] Some a show ?thesis by simp
    next
      case (Some e)
      with set_storeSamples_update[of "GetName fam" families' st] sub \<open>map_of st (GetName fam) = Some families\<close> a
      show ?thesis by (auto simp add: batchSamples_def)
    qed
  qed
qed

lemma popDatapoints_foldl:
  "Metric (foldl (\<lambda>pullFamily (name, queue).
              if elems queue = [] then pullFamily
              else pullFamily\<lparr>Metric := Metric pullFamily @ elems queue\<rparr>) acc qs)
     = Metric acc @ queueSamples qs"
  by (induction qs arbitrary: acc) (auto simp add: queueSamples_def)

lemma popDatapoints_Metric:
  "Metric (popDatapoints f) = Metric (family f) @ queueSamples (metrics f)"
  by (simp add: popDatapoints_def copyFamily_def popDatapoints_foldl)

lemma Debug_store:
  "metricFamiliesByName (snd (Debug enc timerFired verbose c)) = metricFamiliesByName c"
  by (simp add: Debug_def Let_def updateCountStats_def split: sum.splits prod.splits)

lemma Receive_samples:
  "set (storeSamples (metricFamiliesByName (snd (Receive grow c req))))
     \<subseteq> set (storeSamples (metricFamiliesByName c))
         \<union> sortedLabels ` (case parsed req of Inl err \<Rightarrow> {} | Inr fams \<Rightarrow> set (batchSamples fams))"
proof (cases "parsed req")
  case (Inl err)
  then show ?thesis by (simp add: Receive_def)
next
  case (Inr fams)
  obtain p st where h: "hubMetrics grow (metricFamiliesByName c) fams = (p, st)"
    by (cases "hubMetrics grow (metricFamiliesByName c) fams")
  with hubMetrics_samples[of grow "metricFamiliesByName c" fams]
  have "set (storeSamples st) \<subseteq> set (storeSamples (metricFamiliesByName c)) \<union> sortedLabels ` set (batchSamples fams)"
    by simp
  with Inr h show ?thesis
    by (auto simp add: Receive_def Let_def split: option.splits)
qed

text \<open>
  Claim C9 says that no hub operation modifies an accepted sample, the stored order of
  its label pairs included. The merge does reorder them: \<^verbatim>\<open>makeLabeledName\<close> sorts the
  label slice of the pushed sample in place. A sample pushed with the labels
  \<^verbatim>\<open>method\<close>, \<^verbatim>\<open>code\<close> is stored, after an accepted push, with the labels
  \<^verbatim>\<open>code\<close>, \<^verbatim>\<open>method\<close>.
\<close>

theorem merge_sorts_labels_in_place:
  "fst (Receive (\<lambda>c. 2 * c) (NewMetricHub 0 10) (pushOf [familyOf ''http_requests_total'' [postThenCode]]))
     = Inr (200, NoContent)
   \<and> storeSamples (metricFamiliesByName
        (snd (Receive (\<lambda>c. 2 * c) (NewMetricHub 0 10)
               (pushOf [familyOf ''http_requests_total'' [postThenCode]]))))
     = [sample [labelled ''code'' ''200'', labelled ''method'' ''post''] 1395066363410]
   \<and> Label (sample [labelled ''code'' ''200'', labelled ''method'' ''post''] 1395066363410)
       \<noteq> Label postThenCode"
  by (simp add: postThenCode_def eval_defs)

text \<open>
  Claim C9 as amended: the merge of a push sorts the label pairs of each pushed sample by
  label name, once, and changes nothing else of it: every sample in the store after a
  push is a sample that was in the store before, as it was, or a sample of the push with
  its label pairs sorted, which has the value, the timestamp and the label pairs of the
  pushed one. \<^verbatim>\<open>Debug\<close> leaves the store as it is, and what a scrape hands to the codec
  for a family is the samples of its queues as they are stored, queue by queue.
\<close>

theorem accepted_samples_kept:
  "set (storeSamples (metricFamiliesByName (snd (Receive grow c req))))
     \<subseteq> set (storeSamples (metricFamiliesByName c))
         \<union> sortedLabels ` (case parsed req of Inl err \<Rightarrow> {} | Inr fams \<Rightarrow> set (batchSamples fams))
   \<and> Payload (sortedLabels m) = Payload m
   \<and> TimestampMs (sortedLabels m) = TimestampMs m
   \<and> mset (Label (sortedLabels m)) = mset (Label m)
   \<and> metricFamiliesByName (snd (Debug enc timerFired verbose c)) = metricFamiliesByName c
   \<and> Metric (popDatapoints f) = Metric (family f) @ queueSamples (metrics f)"
  using Receive_samples[of grow c req] popDatapoints_Metric[of f] Debug_store[of enc timerFired verbose c]
  by (simp add: sortedLabels_def sortSlice_def)

theorem accepted_samples_kept_witness:
  "set (storeSamples (metricFamiliesByName
        (snd (Receive (\<lambda>c. 2 * c) hubWithThree
               (pushOf [familyOf ''http_requests_total'' [postThenCode]])))))
     \<subseteq> {sampleAt 1, sampleAt 2, sampleAt 3, sortedLabels postThenCode}
   \<and> TimestampMs (sortedLabels postThenCode) = Some 1395066363410"
proof -
  have s: "set (storeSamples (metricFamiliesByName hubWithThree)) = {sampleAt 1, sampleAt 2, sampleAt 3 :: nat Metric}"
    by (simp add: hubWithThree_def eval_defs)
  have p: "parsed (pushOf [familyOf ''http_requests_total'' [postThenCode]])
             = Inr [familyOf ''http_requests_total'' [postThenCode]]"
    by (simp add: pushOf_def)
  have b: "batchSamples [familyOf ''http_requests_total'' [postThenCode]] = [postThenCode]"
    by (simp add: batchSamples_def familyOf_def)
  have t: "TimestampMs postThenCode = Some 1395066363410" by (simp add: postThenCode_def sample_def)
  from accepted_samples_kept [of "\<lambda>c. 2 * c" hubWithThree
      "pushOf [familyOf ''http_requests_total'' [postThenCode]]" postThenCode
      checkingCodec False "[]" "\<lparr>family = familyOf ''mf1'' [], metrics = []\<rparr>"]
  show ?thesis by (auto simp add: s p b t)
qed

subsection \<open>The buffer under pushes that return\<close>

text \<open>
  A merge stores at most one sample per sample of the push, also when it panics. So a
  push that returns keeps the store within the counter, and over a sequence of pushes
  none of which panics the number of buffered samples stays within the limit.
\<close>

lemma queueLengthSum_length: "queueLengthSum st = int (length (storeSamples st))"
proof -
  have q: "sum_list (map (\<lambda>(labeled, series). int (length (elems series))) qs)
             = int (length (queueSamples qs))" for qs :: "'a queues"
    by (induction qs) (auto simp add: queueSamples_def)
  show ?thesis
    by (induction st) (auto simp add: queueLengthSum_def storeSamples_def q[unfolded queueSamples_def])
qed

lemma length_queueSamples_update_None:
  "map_of qs k = None \<Longrightarrow>
     length (queueSamples (AList.update k v qs)) = length (queueSamples qs) + length (elems v)"
  by (induction qs) (auto simp add: queueSamples_def split: if_splits)

lemma length_queueSamples_update_Some:
  "map_of qs k = Some q \<Longrightarrow>
     length (queueSamples (AList.update k v qs)) + length (elems q)
       = length (queueSamples qs) + length (elems v)"
  by (induction qs) (auto simp add: queueSamples_def split: if_splits)

lemma length_storeSamples_update_None:
  "map_of st k = None \<Longrightarrow>
     length (storeSamples (AList.update k f st))
       = length (storeSamples st) + length (queueSamples (metrics f))"
  by (induction st) (auto simp add: storeSamples_queueSamples split: if_splits)

lemma length_storeSamples_update_Some:
  "map_of st k = Some old \<Longrightarrow>
     length (storeSamples (AList.update k f st)) + length (queueSamples (metrics old))
       = length (storeSamples st) + length (queueSamples (metrics f))"
  by (induction st) (auto simp add: storeSamples_queueSamples split: if_splits)

lemma sortedInsert_lengths:
  assumes "sortedInsert grow data el = Inr (inserted, aliased)"
  shows "length (elems inserted) = Suc (length (elems data))"
    and "length (elems aliased) = length (elems data)"
proof -
  from sortedInsert_shape[OF assms] obtain k where
    k: "k \<le> length (elems data)"
       "elems inserted = take k (elems data) @ el # drop k (elems data)"
       "aliased = (if length (elems data) < cap data
                      then data\<lparr>elems := take (length (elems data)) (elems inserted)\<rparr>
                      else data)" by blast
  show i: "length (elems inserted) = Suc (length (elems data))" using k(1,2) by simp
  show "length (elems aliased) = length (elems data)" using k(3) i by simp
qed


lemma addMetrics_length:
  "length (queueSamples (metrics (snd (addMetrics grow f ms))))
     \<le> length (queueSamples (metrics f)) + length ms"
proof (induction ms arbitrary: f)
  case Nil
  then show ?case by simp
next
  case (Cons metric rest)
  let ?m = "sortedLabels metric"
  obtain name where mk: "makeLabeledName metric (GetName (family f)) = (name, ?m)"
    by (simp add: makeLabeledName_def Let_def sortedLabels_def)
  have step: "length (queueSamples (metrics (snd (addMetrics grow
                 (f\<lparr>metrics := AList.update name q (metrics f)\<rparr>) rest))))
     \<le> length (queueSamples (metrics f)) + length (metric # rest)"
    if "length (queueSamples (AList.update name q (metrics f)))
          \<le> Suc (length (queueSamples (metrics f)))" for q
    using Cons.IH[of "f\<lparr>metrics := AList.update name q (metrics f)\<rparr>"] that by simp
  show ?case
  proof (cases "map_of (metrics f) name")
    case None
    from length_queueSamples_update_None[OF None, of "slice1 ?m"]
    have "length (queueSamples (AList.update name (slice1 ?m) (metrics f)))
            \<le> Suc (length (queueSamples (metrics f)))" by (simp add: slice1_def)
    from step[OF this] show ?thesis using mk None by simp
  next
    case (Some queue)
    show ?thesis
    proof (cases "notBeforeLast ?m queue")
      case (Inl p)
      then show ?thesis using mk Some by auto
    next
      case (Inr b)
      show ?thesis
      proof (cases b)
        case True
        from length_queueSamples_update_Some[OF Some, of "go_append grow queue ?m"]
        have "length (queueSamples (AList.update name (go_append grow queue ?m) (metrics f)))
                \<le> Suc (length (queueSamples (metrics f)))" by (simp add: go_append_elems)
        from step[OF this] show ?thesis using mk Some Inr True by simp
      next
        case False
        show ?thesis
        proof (cases "sortedInsert grow queue ?m")
          case (Inl p)
          then show ?thesis using mk Some Inr False by auto
        next
          case (Inr r)
          obtain inserted aliased where r: "r = (inserted, aliased)" by (cases r)
          from sortedInsert_lengths(2)[OF Inr[unfolded r]]
            length_queueSamples_update_Some[OF Some, of aliased]
          have "length (queueSamples (AList.update name aliased (metrics f)))
                  \<le> Suc (length (queueSamples (metrics f)))" by simp
          from step[OF this] show ?thesis
            using mk Some \<open>notBeforeLast ?m queue = Inr b\<close> False Inr r by simp
        qed
      qed
    qed
  qed
qed

lemma newQueues_length:
  "newQueues grow n qs ms = Inr qs' \<Longrightarrow>
     length (queueSamples qs') \<le> length (queueSamples qs) + length ms"
proof (induction ms arbitrary: qs)
  case Nil
  then show ?case by simp
next
  case (Cons metric rest)
  let ?m = "sortedLabels metric"
  obtain name where mk: "makeLabeledName metric n = (name, ?m)"
    by (simp add: makeLabeledName_def Let_def sortedLabels_def)
  have step: "length (queueSamples qs') \<le> length (queueSamples qs) + length (metric # rest)"
    if "length (queueSamples (AList.update name q qs)) \<le> Suc (length (queueSamples qs))"
      and "newQueues grow n (AList.update name q qs) rest = Inr qs'" for q
    using Cons.IH[OF that(2)] that(1) by simp
  show ?case
  proof (cases "map_of qs name")
    case None
    from length_queueSamples_update_None[OF None, of "slice1 ?m"]
    have "length (queueSamples (AList.update name (slice1 ?m) qs)) \<le> Suc (length (queueSamples qs))"
      by (simp add: slice1_def)
    from step[OF this] show ?thesis using mk None Cons.prems by simp
  next
    case (Some queue)
    show ?thesis
    proof (cases "notBeforeLast ?m queue")
      case (Inl p)
      then show ?thesis using mk Some Cons.prems by auto
    next
      case (Inr b)
      show ?thesis
      proof (cases b)
        case True
        from length_queueSamples_update_Some[OF Some, of "go_append grow queue ?m"]
        have "length (queueSamples (AList.update name (go_append grow queue ?m) qs))
                \<le> Suc (length (queueSamples qs))" by (simp add: go_append_elems)
        from step[OF this] show ?thesis using mk Some Inr True Cons.prems by simp
      next
        case False
        show ?thesis
        proof (cases "sortedInsert grow queue ?m")
          case (Inl p)
          then show ?thesis using mk Some Inr False Cons.prems by auto
        next
          case (Inr r)
          obtain inserted aliased where r: "r = (inserted, aliased)" by (cases r)
          from sortedInsert_lengths(1)[OF Inr[unfolded r]]
            length_queueSamples_update_Some[OF Some, of inserted]
          have "length (queueSamples (AList.update name inserted qs)) \<le> Suc (length (queueSamples qs))"
            by simp
          from step[OF this] show ?thesis
            using mk Some \<open>notBeforeLast ?m queue = Inr b\<close> False Inr r Cons.prems by simp
        qed
      qed
    qed
  qed
qed

lemma hubMetrics_length:
  "length (storeSamples (snd (hubMetrics grow st batch)))
     \<le> length (storeSamples st) + length (batchSamples batch)"
proof (induction batch arbitrary: st)
  case Nil
  then show ?case by simp
next
  case (Cons fam rest)
  have step: "length (storeSamples (snd (hubMetrics grow (AList.update (GetName fam) f st) rest)))
       \<le> length (storeSamples st) + length (batchSamples (fam # rest))"
    if "length (storeSamples (AList.update (GetName fam) f st))
          \<le> length (storeSamples st) + length (Metric fam)" for f
    using Cons.IH[of "AList.update (GetName fam) f st"] that by (simp add: batchSamples_def)
  show ?case
  proof (cases "map_of st (GetName fam)")
    case None
    show ?thesis
    proof (cases "newFamilyAndMetrics grow fam")
      case (Inl p)
      then show ?thesis using None by simp
    next
      case (Inr created)
      then obtain qs where q: "newQueues grow (GetName fam) [] (Metric fam) = Inr qs"
        and c: "metrics created = qs"
        by (auto simp add: newFamilyAndMetrics_def split: sum.splits)
      have "queueSamples [] = ([] :: 'a Metric list)" by (simp add: queueSamples_def)
      with newQueues_length[OF q] c have "length (queueSamples (metrics created)) \<le> length (Metric fam)"
        by simp
      with length_storeSamples_update_None[OF None, of created]
      have "length (storeSamples (AList.update (GetName fam) created st))
              \<le> length (storeSamples st) + length (Metric fam)" by simp
      from step[OF this] show ?thesis using None Inr by simp
    qed
  next
    case (Some families)
    obtain p families' where a: "addMetrics grow families (Metric fam) = (p, families')"
      by (cases "addMetrics grow families (Metric fam)")
    from addMetrics_length[of grow families "Metric fam"] a
      length_storeSamples_update_Some[OF Some, of families']
    have sub: "length (storeSamples (AList.update (GetName fam) families' st))
              \<le> length (storeSamples st) + length (Metric fam)" by simp
    show ?thesis
    proof (cases p)
      case None
      with step[OF sub] Some a show ?thesis by simp
    next
      case (Some e)
      with sub \<open>map_of st (GetName fam) = Some families\<close> a
      show ?thesis by (simp add: batchSamples_def)
    qed
  qed
qed

lemma countNew_length: "countNew fams = int (length (batchSamples fams))"
proof -
  have "foldl (\<lambda>newDatapoints fam. newDatapoints + int (length (Metric fam))) acc fams
          = acc + int (length (batchSamples fams))" for acc
    by (induction fams arbitrary: acc) (simp_all add: batchSamples_def)
  then show ?thesis by (simp add: countNew_def)
qed

lemma Receive_buffer:
  assumes "Receive grow c req = (Inr r, c')"
    and "queueLengthSum (metricFamiliesByName c) \<le> currentCountDatapoints (stats c)"
  shows "queueLengthSum (metricFamiliesByName c') \<le> currentCountDatapoints (stats c')"
proof (cases "parsed req")
  case (Inl err)
  with assms show ?thesis by (auto simp add: Receive_def)
next
  case (Inr fams)
  obtain p st where h: "hubMetrics grow (metricFamiliesByName c) fams = (p, st)"
    by (cases "hubMetrics grow (metricFamiliesByName c) fams")
  from hubMetrics_length[of grow "metricFamiliesByName c" fams] h
  have "queueLengthSum st \<le> queueLengthSum (metricFamiliesByName c) + countNew fams"
    by (simp add: queueLengthSum_length countNew_length)
  with assms Inr h show ?thesis
    by (auto simp add: Receive_def Let_def split: if_splits option.splits)
qed

lemma pushAll_buffer:
  assumes "noPanic grow c reqs" "0 < limit c"
    and "queueLengthSum (metricFamiliesByName c) \<le> currentCountDatapoints (stats c)"
    and "currentCountDatapoints (stats c) \<le> limit c"
  shows "queueLengthSum (metricFamiliesByName (pushAll grow c reqs)) \<le> limit c"
  using assms
proof (induction reqs arbitrary: c)
  case Nil
  then show ?case by simp
next
  case (Cons req reqs)
  obtain res c' where r: "Receive grow c req = (res, c')" by (cases "Receive grow c req")
  with Cons.prems(1) obtain ok where ok: "res = Inr ok" and np: "noPanic grow c' reqs"
    by (cases res) simp_all
  from Receive_buffer[OF r[unfolded ok] Cons.prems(3)]
  have b: "queueLengthSum (metricFamiliesByName c') \<le> currentCountDatapoints (stats c')" .
  from Receive_counter[OF Cons.prems(2,4), of grow req] r
  have l: "limit c' = limit c" "currentCountDatapoints (stats c') \<le> limit c'" by simp_all
  from Cons.IH[OF np _ b l(2)] Cons.prems(2) l(1) r show ?case by simp
qed

subsection \<open>The insertion where it is stored\<close>

text \<open>
  On ordered timestamps the binary search returns the first index whose timestamp is
  greater than the new one, and \<^verbatim>\<open>sortedInsert\<close> returns the queue with the sample at
  that index. \<^verbatim>\<open>newFamilyAndMetrics\<close> stores that result: for a family whose samples
  all have timestamps it returns, every queue is ordered, and the queues hold exactly the
  samples of the family.
\<close>

lemma Search_loop_first:
  assumes "\<And>a b. a \<le> b \<Longrightarrow> b < n \<Longrightarrow> P a \<Longrightarrow> P b"
  shows "(\<And>h. h < n \<Longrightarrow> f h = Inr (P h)) \<Longrightarrow> i \<le> j \<Longrightarrow> j \<le> n \<Longrightarrow>
         (\<And>a. a < i \<Longrightarrow> \<not> P a) \<Longrightarrow> (\<And>b. j \<le> b \<Longrightarrow> b < n \<Longrightarrow> P b) \<Longrightarrow>
         \<exists>k. Search_loop f i j = Inr k \<and> k \<le> n \<and> (\<forall>a<k. \<not> P a)
             \<and> (\<forall>b. k \<le> b \<longrightarrow> b < n \<longrightarrow> P b)"
proof (induction f i j rule: Search_loop.induct)
  case (1 f i j)
  note mono = assms
  show ?case
  proof (cases "i < j")
    case False
    with "1.prems" have "i = j" by simp
    with "1.prems" False show ?thesis by auto
  next
    case True
    let ?h = "(i + j) div 2"
    from True "1.prems"(3) have hb: "i \<le> ?h" "?h < j" "?h < n" by auto
    have fh: "f ?h = Inr (P ?h)" using "1.prems"(1) hb by simp
    show ?thesis
    proof (cases "P ?h")
      case True
      have "\<exists>k. Search_loop f i ?h = Inr k \<and> k \<le> n \<and> (\<forall>a<k. \<not> P a)
             \<and> (\<forall>b. k \<le> b \<longrightarrow> b < n \<longrightarrow> P b)"
      proof (rule "1.IH"(2)[OF \<open>i < j\<close> fh])
        show "\<not> \<not> P ?h" using True by simp
        show "\<And>h. h < n \<Longrightarrow> f h = Inr (P h)" by (rule "1.prems"(1))
        show "i \<le> ?h" by (rule hb)
        show "?h \<le> n" using hb by simp
        show "\<And>a. a < i \<Longrightarrow> \<not> P a" by (rule "1.prems"(4))
        show "\<And>b. ?h \<le> b \<Longrightarrow> b < n \<Longrightarrow> P b" using mono True by blast
      qed
      then show ?thesis using \<open>i < j\<close> fh True by simp
    next
      case False
      have "\<exists>k. Search_loop f (?h + 1) j = Inr k \<and> k \<le> n \<and> (\<forall>a<k. \<not> P a)
             \<and> (\<forall>b. k \<le> b \<longrightarrow> b < n \<longrightarrow> P b)"
      proof (rule "1.IH"(1)[OF \<open>i < j\<close> fh])
        show "\<not> P ?h" by (rule False)
        show "\<And>h. h < n \<Longrightarrow> f h = Inr (P h)" by (rule "1.prems"(1))
        show "?h + 1 \<le> j" using hb by simp
        show "j \<le> n" by (rule "1.prems"(3))
        show "\<And>a. a < ?h + 1 \<Longrightarrow> \<not> P a"
        proof -
          fix a assume "a < ?h + 1"
          then have "a \<le> ?h" by simp
          with mono[of a ?h] hb False show "\<not> P a" by blast
        qed
        show "\<And>b. j \<le> b \<Longrightarrow> b < n \<Longrightarrow> P b" by (rule "1.prems"(5))
      qed
      then show ?thesis using \<open>i < j\<close> fh False by simp
    qed
  qed
qed

lemma Search_first:
  assumes "\<And>a b. a \<le> b \<Longrightarrow> b < n \<Longrightarrow> P a \<Longrightarrow> P b"
    and "\<And>h. h < n \<Longrightarrow> f h = Inr (P h)"
  shows "\<exists>k. Search n f = Inr k \<and> k \<le> n \<and> (\<forall>a<k. \<not> P a)
             \<and> (\<forall>b. k \<le> b \<longrightarrow> b < n \<longrightarrow> P b)"
  unfolding Search_def
  by (rule Search_loop_first[where P = P and n = n]) (use assms in auto)


lemma sortedInsert_at:
  assumes "Search (length (elems data)) (timestampGreater (elems data) el) = Inr k"
  shows "\<exists>inserted aliased. sortedInsert grow data el = Inr (inserted, aliased)
           \<and> elems inserted = take k (elems data) @ el # drop k (elems data)"
proof -
  from assms have kl: "k \<le> length (elems data)" by (rule Search_bounds)
  have "elems (go_append grow data emptyMetric) = elems data @ [emptyMetric]"
    by (simp add: go_append_def)
  with assms kl show ?thesis
    by (simp add: sortedInsert_def Let_def go_copy_insert)
qed

lemma sortedInsert_ordered:
  assumes ord: "queueOrdered data" and u: "TimestampMs el = Some u"
  shows "\<exists>inserted aliased k. sortedInsert grow data el = Inr (inserted, aliased)
           \<and> elems inserted = take k (elems data) @ el # drop k (elems data)
           \<and> k \<le> length (elems data)
           \<and> (\<forall>a<k. the (TimestampMs (elems data ! a)) \<le> u)
           \<and> (\<forall>b. k \<le> b \<longrightarrow> b < length (elems data) \<longrightarrow> u < the (TimestampMs (elems data ! b)))
           \<and> queueOrdered inserted"
proof -
  let ?xs = "elems data"
  let ?g = "\<lambda>m. the (TimestampMs m)"
  let ?P = "\<lambda>h. u < ?g (?xs ! h)"
  from ord have some: "\<And>h. h < length ?xs \<Longrightarrow> TimestampMs (?xs ! h) \<noteq> None"
    and srt: "sorted (map ?g ?xs)"
    by (auto simp add: queueOrdered_def list_all_length)
  have mono: "\<And>a b. a \<le> b \<Longrightarrow> b < length ?xs \<Longrightarrow> ?P a \<Longrightarrow> ?P b"
  proof -
    fix a b assume ab: "a \<le> b" "b < length ?xs" "?P a"
    from srt ab(1,2) have "map ?g ?xs ! a \<le> map ?g ?xs ! b"
      by (simp add: sorted_iff_nth_mono)
    with ab show "?P b" by simp
  qed
  have f: "\<And>h. h < length ?xs \<Longrightarrow> timestampGreater ?xs el h = Inr (?P h)"
  proof -
    fix h assume h: "h < length ?xs"
    from some[OF h] obtain t where "TimestampMs (?xs ! h) = Some t" by auto
    with h u show "timestampGreater ?xs el h = Inr (?P h)"
      by (simp add: timestampGreater_def)
  qed
  have "\<exists>k. Search (length ?xs) (timestampGreater ?xs el) = Inr k \<and> k \<le> length ?xs
          \<and> (\<forall>a<k. \<not> ?P a) \<and> (\<forall>b. k \<le> b \<longrightarrow> b < length ?xs \<longrightarrow> ?P b)"
  proof (rule Search_first[where P = ?P])
    show "\<And>a b. a \<le> b \<Longrightarrow> b < length ?xs \<Longrightarrow> ?P a \<Longrightarrow> ?P b" by (rule mono)
    show "\<And>h. h < length ?xs \<Longrightarrow> timestampGreater ?xs el h = Inr (?P h)" by (rule f)
  qed
  then obtain k where k: "Search (length ?xs) (timestampGreater ?xs el) = Inr k" "k \<le> length ?xs"
     "\<forall>a<k. \<not> ?P a" "\<forall>b. k \<le> b \<longrightarrow> b < length ?xs \<longrightarrow> ?P b" by blast
  from sortedInsert_at[OF k(1), of grow] obtain inserted aliased where
    i: "sortedInsert grow data el = Inr (inserted, aliased)"
       "elems inserted = take k ?xs @ el # drop k ?xs" by blast
  have lo: "\<forall>x\<in>set (take k ?xs). ?g x \<le> u"
  proof
    fix x assume "x \<in> set (take k ?xs)"
    then obtain a where "a < k" "a < length ?xs" "x = ?xs ! a"
      by (auto simp add: in_set_conv_nth)
    with k(3) show "?g x \<le> u" by auto
  qed
  have hi: "\<forall>y\<in>set (drop k ?xs). u < ?g y"
  proof
    fix y assume "y \<in> set (drop k ?xs)"
    then obtain b where "b < length ?xs - k" "y = ?xs ! (k + b)"
      by (auto simp add: in_set_conv_nth)
    then have "k \<le> k + b" "k + b < length ?xs" by simp_all
    with k(4) \<open>y = ?xs ! (k + b)\<close> show "u < ?g y" by blast
  qed
  have s1: "sorted (map ?g (take k ?xs))" using srt by (simp add: sorted_wrt_take take_map[symmetric] del: take_map)
  have s2: "sorted (map ?g (drop k ?xs))" using srt by (simp add: sorted_wrt_drop drop_map[symmetric] del: drop_map)
  have "sorted (map ?g (take k ?xs @ el # drop k ?xs))"
    using s1 s2 lo hi u by (fastforce simp add: sorted_append)
  moreover have "list_all (\<lambda>m. TimestampMs m \<noteq> None) (take k ?xs @ el # drop k ?xs)"
    using ord u by (auto simp add: queueOrdered_def list_all_iff dest: in_set_takeD in_set_dropD)
  ultimately have "queueOrdered inserted" using i(2) by (simp add: queueOrdered_def)
  with i k show ?thesis by (intro exI[of _ inserted] exI[of _ aliased] exI[of _ k]) auto
qed


lemma mset_queueSamples_update_None:
  "map_of qs k = None \<Longrightarrow>
     mset (queueSamples (AList.update k v qs)) = mset (queueSamples qs) + mset (elems v)"
  by (induction qs) (auto simp add: queueSamples_def split: if_splits)

lemma mset_queueSamples_update_Some:
  "map_of qs k = Some q \<Longrightarrow>
     mset (queueSamples (AList.update k v qs)) + mset (elems q)
       = mset (queueSamples qs) + mset (elems v)"
  by (induction qs) (auto simp add: queueSamples_def split: if_splits)

lemma queueOrdered_slice1: "TimestampMs m \<noteq> None \<Longrightarrow> queueOrdered (slice1 m)"
  by (simp add: queueOrdered_def slice1_def)

lemma notBeforeLast_ordered:
  assumes "queueOrdered q" "TimestampMs m = Some t"
  shows "notBeforeLast m q = Inr (the (TimestampMs (last (elems q))) \<le> t)"
proof -
  from assms(1) have ne: "elems q \<noteq> []" and "list_all (\<lambda>m. TimestampMs m \<noteq> None) (elems q)"
    by (simp_all add: queueOrdered_def)
  then have "TimestampMs (last (elems q)) \<noteq> None"
    by (simp add: list_all_iff)
  then obtain u where "TimestampMs (last (elems q)) = Some u" by auto
  with ne assms(2) show ?thesis by (simp add: notBeforeLast_def)
qed

lemma queueOrdered_append:
  assumes "queueOrdered q" "TimestampMs m = Some t" "the (TimestampMs (last (elems q))) \<le> t"
  shows "queueOrdered (go_append grow q m)"
proof -
  let ?g = "\<lambda>m. the (TimestampMs m)"
  from assms(1) have ne: "elems q \<noteq> []" and srt: "sorted (map ?g (elems q))"
    and al: "list_all (\<lambda>m. TimestampMs m \<noteq> None) (elems q)"
    by (simp_all add: queueOrdered_def)
  have "\<forall>x\<in>set (elems q). ?g x \<le> t"
  proof
    fix x assume "x \<in> set (elems q)"
    then obtain i where i: "i < length (elems q)" "x = elems q ! i" by (auto simp add: in_set_conv_nth)
    with srt ne have "map ?g (elems q) ! i \<le> map ?g (elems q) ! (length (elems q) - 1)"
      by (intro sorted_nth_mono) auto
    with i ne assms(3) show "?g x \<le> t" by (simp add: last_conv_nth)
  qed
  with srt al assms(2) show ?thesis
    by (simp add: queueOrdered_def go_append_elems sorted_append)
qed

lemma newQueues_ordered:
  assumes "list_all (\<lambda>m. TimestampMs m \<noteq> None) ms" "\<forall>(k, q)\<in>set qs. queueOrdered q"
  shows "\<exists>qs'. newQueues grow n qs ms = Inr qs' \<and> (\<forall>(k, q)\<in>set qs'. queueOrdered q)
           \<and> mset (queueSamples qs') = mset (queueSamples qs) + mset (map sortedLabels ms)"
  using assms
proof (induction ms arbitrary: qs)
  case Nil
  then show ?case by simp
next
  case (Cons metric rest)
  let ?m = "sortedLabels metric"
  obtain name where mk: "makeLabeledName metric n = (name, ?m)"
    by (simp add: makeLabeledName_def Let_def sortedLabels_def)
  from Cons.prems(1) obtain t where t: "TimestampMs ?m = Some t"
    by (auto simp add: sortedLabels_def)
  from Cons.prems(1) have rest: "list_all (\<lambda>m. TimestampMs m \<noteq> None) rest" by simp
  have step: "\<exists>qs'. newQueues grow n (AList.update name q qs) rest = Inr qs'
           \<and> (\<forall>(k, q)\<in>set qs'. queueOrdered q)
           \<and> mset (queueSamples qs') = mset (queueSamples (AList.update name q qs))
                + mset (map sortedLabels rest)"
    if "queueOrdered q" for q
  proof (rule Cons.IH[OF rest])
    show "\<forall>(k, q)\<in>set (AList.update name q qs). queueOrdered q"
      using set_update_subset[of name q qs] Cons.prems(2) that by auto
  qed
  show ?case
  proof (cases "map_of qs name")
    case None
    from step[OF queueOrdered_slice1[of ?m]] t mk None
      mset_queueSamples_update_None[OF None, of "slice1 ?m"]
    show ?thesis by (auto simp add: slice1_def)
  next
    case (Some queue)
    then have "(name, queue) \<in> set qs" by (rule map_of_SomeD)
    with Cons.prems(2) have oq: "queueOrdered queue" by auto
    note nb = notBeforeLast_ordered[OF oq t]
    show ?thesis
    proof (cases "the (TimestampMs (last (elems queue))) \<le> t")
      case True
      from step[OF queueOrdered_append[OF oq t True, of grow]]
        mset_queueSamples_update_Some[OF Some, of "go_append grow queue ?m"]
        mk Some nb True
      show ?thesis by (auto simp add: go_append_elems)
    next
      case False
      from sortedInsert_ordered[OF oq t, of grow] obtain inserted aliased k where
        i: "sortedInsert grow queue ?m = Inr (inserted, aliased)"
           "elems inserted = take k (elems queue) @ ?m # drop k (elems queue)"
           "queueOrdered inserted" by blast
      have "mset (take k (elems queue) @ drop k (elems queue)) = mset (elems queue)" by simp
      then have "mset (take k (elems queue)) + mset (drop k (elems queue)) = mset (elems queue)"
        by (simp only: mset_append)
      then have "mset (elems inserted) = add_mset ?m (mset (elems queue))"
        using i(2) by simp
      with step[OF i(3)] mset_queueSamples_update_Some[OF Some, of inserted] mk Some nb False i(1)
      show ?thesis by auto
    qed
  qed
qed

lemma newFamilyAndMetrics_ordered:
  assumes "list_all (\<lambda>m. TimestampMs m \<noteq> None) (Metric fam)"
  shows "\<exists>created. newFamilyAndMetrics grow fam = Inr created
           \<and> (\<forall>(k, q)\<in>set (metrics created). queueOrdered q)
           \<and> mset (queueSamples (metrics created)) = mset (map sortedLabels (Metric fam))"
proof -
  from newQueues_ordered[OF assms, of "[]" grow "GetName fam"]
  obtain qs' where "newQueues grow (GetName fam) [] (Metric fam) = Inr qs'"
    "\<forall>(k, q)\<in>set qs'. queueOrdered q"
    "mset (queueSamples qs') = mset (queueSamples []) + mset (map sortedLabels (Metric fam))"
    by auto
  then show ?thesis by (simp add: newFamilyAndMetrics_def queueSamples_def)
qed

subsection \<open>Rendering a family without a name\<close>

text \<open>
  With every name pointer set, the render returns: the text of the families the codec
  accepts, in the order of the snapshot, and one warning per family it rejects. When
  the select takes the timer, the scrape returns the empty body and the store is
  drained all the same.
\<close>

lemma popDatapoints_Name_foldl:
  "Name (foldl (\<lambda>pullFamily (name, queue).
              if elems queue = [] then pullFamily
              else pullFamily\<lparr>Metric := Metric pullFamily @ elems queue\<rparr>) acc qs) = Name acc"
  by (induction qs arbitrary: acc) auto

lemma popDatapoints_Name: "Name (popDatapoints f) = Name (family f)"
  by (simp add: popDatapoints_def copyFamily_def popDatapoints_Name_foldl)

lemma processFamilyStringsWorker_concat:
  "processFamilyStringsWorker results = concat results"
proof -
  have "foldl (\<lambda>resp result. resp @ result) acc results = acc @ concat results" for acc
    by (induction results arbitrary: acc) simp_all
  then show ?thesis by (simp add: processFamilyStringsWorker_def)
qed

lemma processFamilyWorker_named:
  assumes "\<forall>f\<in>set fams. Name (family f) \<noteq> None"
  shows "processFamilyWorker enc fams
    = Inr (List.map_filter (\<lambda>f. case familyToString enc (popDatapoints f) of
                                    Inl err \<Rightarrow> None | Inr familyStr \<Rightarrow> Some familyStr) fams,
           List.map_filter (\<lambda>f. case familyToString enc (popDatapoints f) of
                                    Inl err \<Rightarrow> Some (MetricDropped (GetName (family f)) err)
                                  | Inr familyStr \<Rightarrow> None) fams)"
  using assms
proof (induction fams)
  case Nil
  then show ?case by (simp add: List.map_filter_simps)
next
  case (Cons f fams)
  then obtain n where n: "Name (family f) = Some n" by auto
  from Cons show ?case
    by (cases "familyToString enc (popDatapoints f)")
       (simp_all add: Let_def List.map_filter_simps popDatapoints_Name n GetName_def)
qed

lemma exposeMetrics_drops_failed_families:
  assumes "\<forall>(name, f)\<in>set byName. Name (family f) \<noteq> None" "0 < workers"
  shows "exposeMetrics enc False byName workers
    = Inr (concat (List.map_filter (\<lambda>f. case familyToString enc (popDatapoints f) of
                                    Inl err \<Rightarrow> None | Inr familyStr \<Rightarrow> Some familyStr) (map snd byName)),
           List.map_filter (\<lambda>f. case familyToString enc (popDatapoints f) of
                                    Inl err \<Rightarrow> Some (MetricDropped (GetName (family f)) err)
                                  | Inr familyStr \<Rightarrow> None) (map snd byName))"
proof -
  from assms(1) have "\<forall>f\<in>set (map snd byName). Name (family f) \<noteq> None" by auto
  from processFamilyWorker_named[OF this, of enc] assms(2) show ?thesis
    by (simp add: exposeMetrics_def processFamilyStringsWorker_concat)
qed

lemma Scrape_timer_case:
  assumes "\<forall>(name, f)\<in>set (metricFamiliesByName c). Name (family f) \<noteq> None"
  shows "fst (Scrape enc True now c) = Inr (200, Exposition [])
       \<and> metricFamiliesByName (snd (Scrape enc True now c)) = []"
proof -
  from assms have "\<forall>f\<in>set (map snd (metricFamiliesByName c)). Name (family f) \<noteq> None" by auto
  from processFamilyWorker_named[OF this, of enc] show ?thesis
    by (simp add: Scrape_def exposeMetrics_def scrapeWorkerPoolSize_def Let_def clearMetrics_def)
qed

text \<open>
  Claim C8 says that a family with an empty name, for which the codec fails, is left out
  of the output with a logged warning, that the other families still render, and that
  no error reaches the caller of the render. The warning is written with
  \<^verbatim>\<open>*pullFamily.Name\<close>: for a family whose name is empty because the pointer is nil
  (which \<^verbatim>\<open>hubMetrics\<close> stores under the empty name), the worker panics whenever the
  codec reports an error for it, and nothing is rendered.
\<close>

theorem exposeMetrics_nil_name_panics:
  "hubMetrics grow [] [nameless [sampleAt 3], familyOf ''mf1'' [sampleAt 1 :: 'v Metric]]
     = (None, [([], \<lparr>family = nameless [], metrics = [([], slice1 (sampleAt 3))]\<rparr>),
               (''mf1'', \<lparr>family = familyOf ''mf1'' [], metrics = [(''mf1'', slice1 (sampleAt 1))]\<rparr>)])
   \<and> exposeMetrics enc False
        [([], \<lparr>family = nameless [], metrics = [([], slice1 (sampleAt 3))]\<rparr>),
         (''mf1'', \<lparr>family = familyOf ''mf1'' [], metrics = [(''mf1'', slice1 (sampleAt 1 :: 'v Metric))]\<rparr>)]
        scrapeWorkerPoolSize
     = (case enc (nameless [sampleAt 3]) of
          (buf, Some err) \<Rightarrow> Inl NilDereference
        | (buf, None) \<Rightarrow>
            (case enc (familyOf ''mf1'' [sampleAt 1]) of
               (buf', Some err') \<Rightarrow> Inr (buf, [MetricDropped ''mf1'' (''error writing family string: '' @ err')])
             | (buf', None) \<Rightarrow> Inr (buf @ buf', [])))
   \<and> exposeMetrics checkingCodec False
        [([], \<lparr>family = nameless [], metrics = [([], slice1 (sampleAt 3))]\<rparr>),
         (''mf1'', \<lparr>family = familyOf ''mf1'' [], metrics = [(''mf1'', slice1 (sampleAt 1 :: 'v Metric))]\<rparr>)]
        scrapeWorkerPoolSize
     = Inl NilDereference"
  by (simp add: nameless_def eval_defs render_defs split: prod.splits option.splits)

subsection \<open>The timer of the scrape\<close>

text \<open>
  When the aggregated string takes longer to arrive, after the workers are done, than
  the timer runs, the scrape returns status 200 with the empty body and the store is
  drained; when it arrives before the timer fires, the scrape is the scrape without
  timer, however long the workers took.
\<close>

lemma ScrapeTimed_timer_case:
  assumes "\<forall>(name, f)\<in>set (metricFamiliesByName c). Name (family f) \<noteq> None"
    and "max 0 (timerDuration (scrapeTimeout c)) < responseLag timing"
  shows "fst (ScrapeTimed enc timing now c) = Inr (200, Exposition [])
       \<and> metricFamiliesByName (snd (ScrapeTimed enc timing now c)) = []"
proof -
  from assms(2) have "selectTakesTimer (scrapeTimeout c) timing"
    by (simp add: selectTakesTimer_def Let_def)
  with Scrape_timer_case[OF assms(1), of enc now] show ?thesis
    by (simp add: ScrapeTimed_def)
qed

lemma ScrapeTimed_response_case:
  assumes "responseLag timing < max 0 (timerDuration (scrapeTimeout c))"
  shows "ScrapeTimed enc timing now c = Scrape enc False now c"
proof -
  from assms have "\<not> selectTakesTimer (scrapeTimeout c) timing"
    by (auto simp add: selectTakesTimer_def Let_def)
  then show ?thesis by (simp add: ScrapeTimed_def)
qed

text \<open>
  Claim C7 says that a scrape whose render takes longer than the scrape timeout returns
  the empty string as body with status 200, the rendered work discarded and the store
  drained. The timer does not run while the workers render: it is created when the
  select is entered, after \<^verbatim>\<open>waitGroup.Wait()\<close>. On a hub with a timeout of one second,
  a render whose workers take five seconds, with the aggregated string ready when the
  select is entered, takes longer than the timeout and the scrape returns the whole
  text.
\<close>

theorem render_longer_than_timeout_returns_body:
  "timerDuration (scrapeTimeout hubTimeoutOne) = 1000000000
   \<and> timerDuration (scrapeTimeout hubTimeoutOne)
        < renderTook \<lparr>workersDone = 5000000000, responseLag = 0, timerWinsTie = tie\<rparr>
   \<and> fst (ScrapeTimed checkingCodec
             \<lparr>workersDone = 5000000000, responseLag = 0, timerWinsTie = tie\<rparr> now hubTimeoutOne)
       = Inr (200, Exposition (''# TYPE mf1'' @ [CHR 0x0A] @ ''mf1'' @ [CHR 0x0A]
                                 @ ''mf1'' @ [CHR 0x0A] @ ''mf1'' @ [CHR 0x0A]))"
  by (simp add: ScrapeTimed_def selectTakesTimer_def timerDuration_def renderTook_def
        hubTimeoutOne_def eval_defs render_defs)

section \<open>Properties of the distributor\<close>

text \<open>
  When every lookup succeeds with a configured hub and every label has its name, the
  handler returns without a log line; there is one batch per configured hub; the
  forwarded samples are the pushed samples, each once; and each is in the batch of the
  hub the ring gives for its key label value. The aggregated families carry the
  metadata of a pushed family of their name.
\<close>

lemma getKeyLabelValue_loop_named:
  "\<forall>l\<in>set ls. lpName l \<noteq> None \<Longrightarrow> \<exists>v. getKeyLabelValue_loop ls key = Inr v"
  by (induction ls) auto

lemma mset_slotSamples_update_None:
  "map_of slot n = None \<Longrightarrow>
     mset (slotSamples (AList.update n fam slot)) = mset (slotSamples slot) + mset (Metric fam)"
  by (induction slot) (auto simp add: slotSamples_def split: if_splits)

lemma mset_slotSamples_update_Some:
  "map_of slot n = Some old \<Longrightarrow>
     mset (slotSamples (AList.update n fam slot)) + mset (Metric old)
       = mset (slotSamples slot) + mset (Metric fam)"
  by (induction slot) (auto simp add: slotSamples_def split: if_splits)

lemma mset_forwarded_update_Some:
  "map_of distSet hub = Some old \<Longrightarrow>
     mset (forwarded (AList.update hub slot distSet)) + mset (slotSamples old)
       = mset (forwarded distSet) + mset (slotSamples slot)"
  by (induction distSet) (auto simp add: forwarded_def split: if_splits)

lemma set_slotSamples: "set (slotSamples slot) = (\<Union>(n, fam)\<in>set slot. set (Metric fam))"
  by (auto simp add: slotSamples_def)

lemma set_slotSamples_update:
  "set (slotSamples (AList.update n fam slot)) \<subseteq> set (slotSamples slot) \<union> set (Metric fam)"
  using set_update_subset[of n fam slot] by (fastforce simp add: set_slotSamples)

lemma map_of_slotSamples:
  "map_of slot n = Some fam \<Longrightarrow> set (Metric fam) \<subseteq> set (slotSamples slot)"
  by (auto simp add: set_slotSamples dest: map_of_SomeD)


lemma distribute_covers:
  assumes "\<And>key. snd (ring d key) \<and> fst (ring d key) \<in> fst ` set distSet"
    and "\<forall>met\<in>set mets. \<forall>l\<in>set (Label met). lpName l \<noteq> None"
    and "\<forall>(hub, slot)\<in>set distSet. \<forall>met\<in>set (slotSamples slot). routedTo d hub met"
    and "distinct (map fst distSet)"
  shows "\<exists>distSet'. distribute d fam mets distSet logged = (logged, Inr distSet')
           \<and> fst ` set distSet' = fst ` set distSet
           \<and> distinct (map fst distSet')
           \<and> mset (forwarded distSet') = mset (forwarded distSet) + mset mets
           \<and> (\<forall>(hub, slot)\<in>set distSet'. \<forall>met\<in>set (slotSamples slot). routedTo d hub met)"
  using assms
proof (induction mets arbitrary: distSet)
  case Nil
  then show ?case by simp
next
  case (Cons met mets)
  from Cons.prems(2) obtain v where v: "getKeyLabelValue met (keyLabel d) = Inr v"
    using getKeyLabelValue_loop_named[of "Label met" "keyLabel d"]
    by (auto simp add: getKeyLabelValue_def)
  obtain hub ok where r: "ring d v = (hub, ok)" by (cases "ring d v")
  with Cons.prems(1)[of v] have ok: "ok" and hub: "hub \<in> fst ` set distSet" by simp_all
  then obtain slot where slot: "map_of distSet hub = Some slot"
    by (cases "map_of distSet hub") (auto simp add: map_of_eq_None_iff)
  have here: "routedTo d hub met" using v r by (simp add: routedTo_def)
  have old: "\<forall>m\<in>set (slotSamples slot). routedTo d hub m"
    using Cons.prems(3) map_of_SomeD[OF slot] by auto
  define placed where "placed =
     (case map_of slot (GetName fam) of
        Some aggregated \<Rightarrow> aggregated\<lparr>Metric := Metric aggregated @ [met]\<rparr>
      | None \<Rightarrow> \<lparr>Name = Name fam, Help = Help fam, Type = Type fam, Metric = [met]\<rparr>)"
  define slot' where "slot' = AList.update (GetName fam) placed slot"
  define next_set where "next_set = AList.update hub slot' distSet"
  have unfold: "distribute d fam (met # mets) distSet logged = distribute d fam mets next_set logged"
    using v r ok slot by (simp add: next_set_def slot'_def placed_def split: option.splits)
  have ms: "mset (slotSamples slot') = add_mset met (mset (slotSamples slot))"
  proof (cases "map_of slot (GetName fam)")
    case None
    from mset_slotSamples_update_None[OF None, of placed] None show ?thesis
      by (simp add: slot'_def placed_def)
  next
    case (Some aggregated)
    from mset_slotSamples_update_Some[OF Some, of placed] Some show ?thesis
      by (simp add: slot'_def placed_def)
  qed
  then have ss: "set (slotSamples slot') = insert met (set (slotSamples slot))"
    by (metis set_mset_add_mset_insert set_mset_mset)
  have keys: "fst ` set next_set = fst ` set distSet"
    using hub by (auto simp add: next_set_def dom_update)
  have "\<exists>distSet'. distribute d fam mets next_set logged = (logged, Inr distSet')
           \<and> fst ` set distSet' = fst ` set next_set
           \<and> distinct (map fst distSet')
           \<and> mset (forwarded distSet') = mset (forwarded next_set) + mset mets
           \<and> (\<forall>(hub, slot)\<in>set distSet'. \<forall>met\<in>set (slotSamples slot). routedTo d hub met)"
  proof (rule Cons.IH)
    show "snd (ring d key) \<and> fst (ring d key) \<in> fst ` set next_set" for key
      using Cons.prems(1)[of key] keys by simp
    show "\<forall>met\<in>set mets. \<forall>l\<in>set (Label met). lpName l \<noteq> None"
      using Cons.prems(2) by simp
    show "\<forall>(hub, slot)\<in>set next_set. \<forall>met\<in>set (slotSamples slot). routedTo d hub met"
    proof (clarify)
      fix h s m assume hs: "(h, s) \<in> set next_set" and m: "m \<in> set (slotSamples s)"
      from hs set_update_subset[of hub slot' distSet]
      have "(h, s) = (hub, slot') \<or> (h, s) \<in> set distSet" by (auto simp add: next_set_def)
      then show "routedTo d h m"
      proof
        assume "(h, s) = (hub, slot')"
        with m ss here old show ?thesis by auto
      next
        assume "(h, s) \<in> set distSet"
        with Cons.prems(3) m show ?thesis by auto
      qed
    qed
    show "distinct (map fst next_set)"
      using Cons.prems(4) by (simp add: next_set_def distinct_update)
  qed
  moreover have "mset (forwarded next_set) = add_mset met (mset (forwarded distSet))"
    using mset_forwarded_update_Some[OF slot, of slot'] ms by (simp add: next_set_def)
  ultimately show ?case using unfold keys by auto
qed

lemma distributeFamilies_covers:
  assumes "\<And>key. snd (ring d key) \<and> fst (ring d key) \<in> fst ` set distSet"
    and "\<forall>fam\<in>set fams. \<forall>met\<in>set (Metric fam). \<forall>l\<in>set (Label met). lpName l \<noteq> None"
    and "\<forall>(hub, slot)\<in>set distSet. \<forall>met\<in>set (slotSamples slot). routedTo d hub met"
    and "distinct (map fst distSet)"
  shows "\<exists>distSet'. distributeFamilies d fams distSet logged = (logged, Inr distSet')
           \<and> fst ` set distSet' = fst ` set distSet
           \<and> distinct (map fst distSet')
           \<and> mset (forwarded distSet') = mset (forwarded distSet) + mset (batchSamples fams)
           \<and> (\<forall>(hub, slot)\<in>set distSet'. \<forall>met\<in>set (slotSamples slot). routedTo d hub met)"
  using assms
proof (induction fams arbitrary: distSet)
  case Nil
  then show ?case by (simp add: batchSamples_def)
next
  case (Cons fam fams)
  have "\<exists>distSet'. distribute d fam (Metric fam) distSet logged = (logged, Inr distSet')
           \<and> fst ` set distSet' = fst ` set distSet
           \<and> distinct (map fst distSet')
           \<and> mset (forwarded distSet') = mset (forwarded distSet) + mset (Metric fam)
           \<and> (\<forall>(hub, slot)\<in>set distSet'. \<forall>met\<in>set (slotSamples slot). routedTo d hub met)"
    by (rule distribute_covers) (use Cons.prems in auto)
  then obtain mid where mid: "distribute d fam (Metric fam) distSet logged = (logged, Inr mid)"
    "fst ` set mid = fst ` set distSet" "distinct (map fst mid)"
    "mset (forwarded mid) = mset (forwarded distSet) + mset (Metric fam)"
    "\<forall>(hub, slot)\<in>set mid. \<forall>met\<in>set (slotSamples slot). routedTo d hub met" by blast
  have "\<exists>distSet'. distributeFamilies d fams mid logged = (logged, Inr distSet')
           \<and> fst ` set distSet' = fst ` set mid
           \<and> distinct (map fst distSet')
           \<and> mset (forwarded distSet') = mset (forwarded mid) + mset (batchSamples fams)
           \<and> (\<forall>(hub, slot)\<in>set distSet'. \<forall>met\<in>set (slotSamples slot). routedTo d hub met)"
  proof (rule Cons.IH)
    show "snd (ring d key) \<and> fst (ring d key) \<in> fst ` set mid" for key
      using Cons.prems(1)[of key] mid(2) by simp
    show "\<forall>fam\<in>set fams. \<forall>met\<in>set (Metric fam). \<forall>l\<in>set (Label met). lpName l \<noteq> None"
      using Cons.prems(2) by simp
    show "\<forall>(hub, slot)\<in>set mid. \<forall>met\<in>set (slotSamples slot). routedTo d hub met" by (rule mid(5))
    show "distinct (map fst mid)" by (rule mid(3))
  qed
  with mid show ?case by (auto simp add: batchSamples_def)
qed

lemma initial_distSet:
  "fst ` set (foldl (\<lambda>distSet hub. AList.update hub [] distSet) acc hubs) = fst ` set acc \<union> set hubs
   \<and> (distinct (map fst acc) \<longrightarrow>
        distinct (map fst (foldl (\<lambda>distSet hub. AList.update hub [] distSet) acc hubs)))
   \<and> (forwarded acc = [] \<longrightarrow>
        forwarded (foldl (\<lambda>distSet hub. AList.update hub [] distSet) acc hubs) = [])"
proof (induction hubs arbitrary: acc)
  case Nil
  then show ?case by simp
next
  case (Cons hub hubs)
  have "forwarded (AList.update hub [] acc) = []" if "forwarded acc = []"
    using that set_update_subset[of hub "[]" acc]
    by (fastforce simp add: forwarded_def slotSamples_def)
  with Cons[of "AList.update hub [] acc"] show ?case
    by (auto simp add: dom_update distinct_update)
qed

lemma ReceiveGRPC_covers:
  assumes "\<And>key. snd (ring d key) \<and> fst (ring d key) \<in> set (edgeHubArray d)"
    and "\<forall>fam\<in>set (families :: 'v MetricFamily list).
           \<forall>met\<in>set (Metric fam). \<forall>l\<in>set (Label met). lpName l \<noteq> None"
  shows "\<exists>distSet. ReceiveGRPC d families = ([], Inr distSet)
           \<and> fst ` set distSet = set (edgeHubArray d)
           \<and> distinct (map fst distSet)
           \<and> mset (forwarded distSet) = mset (batchSamples families)
           \<and> (\<forall>(hub, slot)\<in>set distSet. \<forall>met\<in>set (slotSamples slot). routedTo d hub met)"
proof -
  let ?init = "foldl (\<lambda>distSet hub. AList.update hub [] distSet) ([] :: 'v distSet) (edgeHubArray d)"
  have e: "forwarded ([] :: 'v distSet) = []" by (simp add: forwarded_def)
  from initial_distSet[of "[] :: 'v distSet" "edgeHubArray d"] e
  have i: "fst ` set ?init = set (edgeHubArray d)" "distinct (map fst ?init)" "forwarded ?init = []"
    by auto
  have "\<exists>distSet'. distributeFamilies d families ?init [] = ([], Inr distSet')
           \<and> fst ` set distSet' = fst ` set ?init
           \<and> distinct (map fst distSet')
           \<and> mset (forwarded distSet') = mset (forwarded ?init) + mset (batchSamples families)
           \<and> (\<forall>(hub, slot)\<in>set distSet'. \<forall>met\<in>set (slotSamples slot). routedTo d hub met)"
  proof (rule distributeFamilies_covers)
    show "snd (ring d key) \<and> fst (ring d key) \<in> fst ` set ?init" for key
      using assms(1)[of key] i(1) by simp
    show "\<forall>fam\<in>set families. \<forall>met\<in>set (Metric fam). \<forall>l\<in>set (Label met). lpName l \<noteq> None"
      by (rule assms(2))
    show "\<forall>(hub, slot)\<in>set ?init. \<forall>met\<in>set (slotSamples slot). routedTo d hub met"
    proof -
      have "set (forwarded ?init) = {}" using i(3) by simp
      then show ?thesis by (fastforce simp add: forwarded_def)
    qed
    show "distinct (map fst ?init)" by (rule i(2))
  qed
  then show ?thesis using i by (auto simp add: ReceiveGRPC_def)
qed

lemma distribute_metadata:
  assumes "distribute d fam mets distSet logged = (logged', Inr distSet')"
    and "\<forall>(hub, slot)\<in>set distSet. \<forall>(n, aggregated)\<in>set slot. sameMetadata sources n aggregated"
    and "fam \<in> sources"
  shows "\<forall>(hub, slot)\<in>set distSet'. \<forall>(n, aggregated)\<in>set slot. sameMetadata sources n aggregated"
  using assms
proof (induction mets arbitrary: distSet logged)
  case Nil
  then show ?case by simp
next
  case (Cons met mets)
  from Cons.prems(1) obtain v where v: "getKeyLabelValue met (keyLabel d) = Inr v"
    by (cases "getKeyLabelValue met (keyLabel d)") simp_all
  obtain hub ok where r: "ring d v = (hub, ok)" by (cases "ring d v")
  from Cons.prems(1) v r obtain slot where slot: "map_of distSet hub = Some slot"
    by (cases "map_of distSet hub") (simp_all add: Let_def)
  define placed where "placed =
     (case map_of slot (GetName fam) of
        Some aggregated \<Rightarrow> aggregated\<lparr>Metric := Metric aggregated @ [met]\<rparr>
      | None \<Rightarrow> \<lparr>Name = Name fam, Help = Help fam, Type = Type fam, Metric = [met]\<rparr>)"
  define slot' where "slot' = AList.update (GetName fam) placed slot"
  define next_set where "next_set = AList.update hub slot' distSet"
  define logged1 where "logged1 = (if \<not> ok then logged @ [HashPositionNotFound met] else logged)"
  have unfold: "distribute d fam (met # mets) distSet logged = distribute d fam mets next_set logged1"
    using v r slot
    by (simp add: next_set_def slot'_def placed_def logged1_def Let_def split: option.splits)
  have inslot: "\<forall>(n, aggregated)\<in>set slot. sameMetadata sources n aggregated"
    using Cons.prems(2) map_of_SomeD[OF slot] by auto
  have p: "sameMetadata sources (GetName fam) placed"
  proof (cases "map_of slot (GetName fam)")
    case None
    then show ?thesis using Cons.prems(3) by (auto simp add: placed_def sameMetadata_def)
  next
    case (Some aggregated)
    with inslot map_of_SomeD[OF Some] have "sameMetadata sources (GetName fam) aggregated" by auto
    with Some show ?thesis by (simp add: placed_def sameMetadata_def)
  qed
  have s': "\<forall>(n, aggregated)\<in>set slot'. sameMetadata sources n aggregated"
    using set_update_subset[of "GetName fam" placed slot] inslot p by (auto simp add: slot'_def)
  have "\<forall>(hub, slot)\<in>set next_set. \<forall>(n, aggregated)\<in>set slot. sameMetadata sources n aggregated"
  proof (clarify)
    fix h s n a assume hs: "(h, s) \<in> set next_set" and na: "(n, a) \<in> set s"
    from hs set_update_subset[of hub slot' distSet]
    have "(h, s) = (hub, slot') \<or> (h, s) \<in> set distSet" by (auto simp add: next_set_def)
    then show "sameMetadata sources n a"
    proof
      assume "(h, s) = (hub, slot')"
      with na s' show ?thesis by auto
    next
      assume "(h, s) \<in> set distSet"
      with na Cons.prems(2) show ?thesis by auto
    qed
  qed
  from Cons.IH[OF _ this Cons.prems(3), of logged1] Cons.prems(1) unfold show ?case by simp
qed


lemma distributeFamilies_metadata:
  assumes "distributeFamilies d fams distSet logged = (logged', Inr distSet')"
    and "\<forall>(hub, slot)\<in>set distSet. \<forall>(n, aggregated)\<in>set slot. sameMetadata sources n aggregated"
    and "set fams \<subseteq> sources"
  shows "\<forall>(hub, slot)\<in>set distSet'. \<forall>(n, aggregated)\<in>set slot. sameMetadata sources n aggregated"
  using assms
proof (induction fams arbitrary: distSet logged)
  case Nil
  then show ?case by simp
next
  case (Cons fam fams)
  obtain lg res where dr: "distribute d fam (Metric fam) distSet logged = (lg, res)"
    by (cases "distribute d fam (Metric fam) distSet logged")
  with Cons.prems(1) obtain mid where mid: "res = Inr mid"
    by (cases res) simp_all
  from distribute_metadata[OF dr[unfolded mid] Cons.prems(2)] Cons.prems(3)
  have "\<forall>(hub, slot)\<in>set mid. \<forall>(n, aggregated)\<in>set slot. sameMetadata sources n aggregated"
    by simp
  from Cons.IH[OF _ this, of lg] Cons.prems(1,3) dr mid show ?case by simp
qed

lemma ReceiveGRPC_metadata:
  assumes "ReceiveGRPC d families = (logged, Inr distSet)"
  shows "\<forall>(hub, slot)\<in>set distSet. \<forall>(n, aggregated)\<in>set slot.
           sameMetadata (set families) n aggregated"
proof -
  have "\<forall>(hub, slot)\<in>set (foldl (\<lambda>distSet hub. AList.update hub [] distSet) acc hubs).
          \<forall>(n, aggregated)\<in>set slot. sameMetadata (set families) n aggregated"
    if "\<forall>(hub, slot)\<in>set acc. \<forall>(n, aggregated)\<in>set slot. sameMetadata (set families) n aggregated"
    for acc :: "'a distSet" and hubs
    using that
  proof (induction hubs arbitrary: acc)
    case Nil
    then show ?case by simp
  next
    case (Cons hub hubs)
    have "\<forall>(hub, slot)\<in>set (AList.update hub [] acc).
            \<forall>(n, aggregated)\<in>set slot. sameMetadata (set families) n aggregated"
      using set_update_subset[of hub "[]" acc] Cons.prems by fastforce
    from Cons.IH[OF this] show ?case by simp
  qed
  from this[of "[]" "edgeHubArray d"] distributeFamilies_metadata[of d families _ "[]" logged distSet "set families"] assms
  show ?thesis by (simp add: ReceiveGRPC_def)
qed

text \<open>
  Claim C6 says, among other things, that a sample whose ring lookup fails is logged and
  dropped. \<^verbatim>\<open>ReceiveGRPC\<close> logs it and then goes on to place it under the hub name the
  failed lookup returned. With a ring without nodes (no downstream hub configured) that
  is an assignment into a nil map: the handler panics on the first sample.
\<close>

theorem ReceiveGRPC_failed_lookup_panics:
  "ReceiveGRPC \<lparr>keyLabel = ''host'', edgeHubArray = [], ring = (\<lambda>key. ([], False))\<rparr>
       [familyOf ''cpu'' [sample [labelled ''host'' ''A''] 1395066363000]]
     = ([HashPositionNotFound (sample [labelled ''host'' ''A''] 1395066363000)], Inl NilMapAssignment)"
  by (simp add: ReceiveGRPC_def getKeyLabelValue_def eval_defs)

end
